theory Spec2Isabelle
  imports Main
begin

section \<open>Data model of \<^verbatim>\<open>src/index.js\<close>\<close>

text \<open>
  Positions are JavaScript numbers holding integers; they are modelled as \<open>int\<close>.
  A position map is the method \<^verbatim>\<open>map(pos, bias)\<close> of the editing library's step map
  (or mapping): it takes an old position and a bias (\<open>-1\<close> or \<open>1\<close>) to a new position.
\<close>

type_synonym posmap = "int \<Rightarrow> int \<Rightarrow> int"

text \<open>
  \<^verbatim>\<open>class TrackedChange\<close>, fields \<^verbatim>\<open>from\<close>, \<^verbatim>\<open>to\<close>, \<^verbatim>\<open>deleted\<close>, \<^verbatim>\<open>author\<close>
  (\<open>from\<close> is a keyword of Isabelle, hence \<open>cfrom\<close> and \<open>cto\<close>).

  The code compares change objects by identity in exactly one place,
  \<^verbatim>\<open>updated.indexOf(change)\<close> in \<^verbatim>\<open>mapChanges\<close>. The only objects ever pushed onto an
  \<^verbatim>\<open>updated\<close> array are created by the push itself (line 109), each is pushed once, and
  the same object is stored in \<^verbatim>\<open>this.changes[i]\<close>. The field \<open>ident\<close> records this
  identity: \<open>Some k\<close> for the object that was pushed as the \<open>k\<close>-th pair of the
  \<^verbatim>\<open>updated\<close> array of the current step, \<open>None\<close> for every other object (created by
  line 113, by \<^verbatim>\<open>TrackedChange.map\<close> or by \<^verbatim>\<open>minimizeChange\<close>).
\<close>

record ('s, 'a) TrackedChange =
  cfrom :: int
  cto :: int
  deleted :: 's
  author :: 'a
  ident :: "nat option"

text \<open>
  The document library (documents \<open>'d\<close>, slices \<open>'s\<close>, nodes \<open>'n\<close>) is not part of the
  repository; the operations that \<^verbatim>\<open>src/index.js\<close> calls on it are parameters of the
  model, collected in one record:
  \<^item> \<open>doc_slice d f t\<close> is \<^verbatim>\<open>d.slice(f, t)\<close>;
  \<^item> \<open>slice_size s\<close> is \<^verbatim>\<open>s.size\<close>;
  \<^item> \<open>doc_replace d f t s\<close> is the document of \<^verbatim>\<open>new Transform(d).replace(f, t, s)\<close>
    together with the position map of the step it added (the identity map when the
    library adds no step);
  \<^item> \<open>resolve_depth d p\<close> is \<^verbatim>\<open>d.resolve(p).depth\<close>, and \<open>resolve_end d p k\<close>,
    \<open>resolve_start d p k\<close>, \<open>resolve_node d p k\<close> are \<^verbatim>\<open>d.resolve(p).end(k)\<close>,
    \<^verbatim>\<open>.start(k)\<close>, \<^verbatim>\<open>.node(k)\<close>;
  \<^item> \<open>findDiffStart a b p\<close> is \<^verbatim>\<open>a.content.findDiffStart(b.content, p)\<close>, a number
    or \<^verbatim>\<open>null\<close>; \<open>findDiffEnd a b p q\<close> is \<^verbatim>\<open>a.content.findDiffEnd(b.content, p, q)\<close>,
    an object \<^verbatim>\<open>{a, b}\<close> or \<^verbatim>\<open>null\<close>.
\<close>

record ('d, 's, 'n) docops =
  doc_slice :: "'d \<Rightarrow> int \<Rightarrow> int \<Rightarrow> 's"
  slice_size :: "'s \<Rightarrow> int"
  doc_replace :: "'d \<Rightarrow> int \<Rightarrow> int \<Rightarrow> 's \<Rightarrow> 'd \<times> posmap"
  resolve_depth :: "'d \<Rightarrow> int \<Rightarrow> int"
  resolve_end :: "'d \<Rightarrow> int \<Rightarrow> int \<Rightarrow> int"
  resolve_start :: "'d \<Rightarrow> int \<Rightarrow> int \<Rightarrow> int"
  resolve_node :: "'d \<Rightarrow> int \<Rightarrow> int \<Rightarrow> 'n"
  findDiffStart :: "'n \<Rightarrow> 'n \<Rightarrow> int \<Rightarrow> int option"
  findDiffEnd :: "'n \<Rightarrow> 'n \<Rightarrow> int \<Rightarrow> int \<Rightarrow> (int \<times> int) option"

text \<open>
  A \<^verbatim>\<open>Transform\<close> as far as the code reads it: its current document \<^verbatim>\<open>tr.doc\<close> and
  the maps of its steps \<^verbatim>\<open>tr.mapping\<close>.
\<close>

record 'd Transform =
  tr_doc :: 'd
  tr_maps :: "posmap list"

definition new_Transform :: "'d \<Rightarrow> 'd Transform" where
  "new_Transform d = \<lparr>tr_doc = d, tr_maps = []\<rparr>"

definition Transform_replace ::
  "('d, 's, 'n) docops \<Rightarrow> 'd Transform \<Rightarrow> int \<Rightarrow> int \<Rightarrow> 's \<Rightarrow> 'd Transform" where
  "Transform_replace ops tr f t s =
     (case doc_replace ops (tr_doc tr) f t s of
        (d', m) \<Rightarrow> \<lparr>tr_doc = d', tr_maps = tr_maps tr @ [m]\<rparr>)"

text \<open>\<^verbatim>\<open>tr.mapping.map(pos, bias)\<close>: the position goes through the maps in order.\<close>

definition Mapping_map :: "posmap list \<Rightarrow> int \<Rightarrow> int \<Rightarrow> int" where
  "Mapping_map ms pos bias = foldl (\<lambda>p m. m p bias) pos ms"

section \<open>\<^verbatim>\<open>TrackedChange.map\<close> (lines 12-17)\<close>

definition TrackedChange_map ::
  "('d, 's, 'n) docops \<Rightarrow> ('s, 'a) TrackedChange \<Rightarrow> posmap \<Rightarrow> bool
     \<Rightarrow> ('s, 'a) TrackedChange option" where
  "TrackedChange_map ops c mapping inclusive =
     (let from' = mapping (cfrom c) (if inclusive then - 1 else 1);
          to' = mapping (cto c) (if inclusive then 1 else - 1)
      in if from' > to' \<or> (from' = to' \<and> slice_size ops (deleted c) = 0) then None
         else Some \<lparr>cfrom = from', cto = to', deleted = deleted c, author = author c,
                     ident = None\<rparr>)"

section \<open>\<^verbatim>\<open>applyAndSlice\<close> (lines 24-31)\<close>

definition applyAndSlice ::
  "('d, 's, 'n) docops \<Rightarrow> 'd \<Rightarrow> ('s, 'a) TrackedChange list \<Rightarrow> int \<Rightarrow> int \<Rightarrow> 's" where
  "applyAndSlice ops doc changes from' to' =
     (let tr = foldl (\<lambda>tr change. Transform_replace ops tr (cfrom change) (cto change)
                         (deleted change))
                 (new_Transform doc) (rev changes)
      in doc_slice ops (tr_doc tr) from' (Mapping_map (tr_maps tr) to' 1))"

section \<open>\<^verbatim>\<open>minimizeChange\<close> (lines 33-54)\<close>

text \<open>
  The loop of line 39, \<^verbatim>\<open>while (cond(sameDepth)) --sameDepth\<close>. Nothing in the code
  bounds it, so it is a partial function: \<open>None\<close> means that it does not return.
\<close>

partial_function (option) sameDepth_loop :: "(int \<Rightarrow> bool) \<Rightarrow> int \<Rightarrow> int option" where
  "sameDepth_loop cond d = (if cond d then sameDepth_loop cond (d - 1) else Some d)"

declare sameDepth_loop.simps [code]

text \<open>
  Lines 34-35: the transform \<^verbatim>\<open>tr\<close> that puts the deleted content back, and its
  document \<^verbatim>\<open>changedDoc\<close>.
\<close>

definition revertTransform ::
  "('d, 's, 'n) docops \<Rightarrow> ('s, 'a) TrackedChange \<Rightarrow> 'd \<Rightarrow> 'd Transform" where
  "revertTransform ops change doc =
     Transform_replace ops (new_Transform doc) (cfrom change) (cto change) (deleted change)"

definition changedDoc :: "('d, 's, 'n) docops \<Rightarrow> ('s, 'a) TrackedChange \<Rightarrow> 'd \<Rightarrow> 'd" where
  "changedDoc ops change doc = tr_doc (revertTransform ops change doc)"

text \<open>Lines 37-39: the value of \<^verbatim>\<open>sameDepth\<close> after the loop, if the loop returns.\<close>

definition sameDepth ::
  "('d, 's, 'n) docops \<Rightarrow> ('s, 'a) TrackedChange \<Rightarrow> 'd \<Rightarrow> int option" where
  "sameDepth ops change doc =
     (let changeEnd = cfrom change + slice_size ops (deleted change)
      in sameDepth_loop
           (\<lambda>d. cto change > resolve_end ops doc (cfrom change) d \<or>
                 changeEnd > resolve_end ops (changedDoc ops change doc) (cfrom change) d)
           (resolve_depth ops doc (cfrom change)))"

text \<open>Line 44: the value of \<^verbatim>\<open>diffStart\<close> for a given \<^verbatim>\<open>sameDepth\<close>.\<close>

definition diffStart ::
  "('d, 's, 'n) docops \<Rightarrow> ('s, 'a) TrackedChange \<Rightarrow> 'd \<Rightarrow> int \<Rightarrow> int option" where
  "diffStart ops change doc d =
     findDiffStart ops (resolve_node ops doc (cfrom change) d)
       (resolve_node ops (changedDoc ops change doc) (cfrom change) d)
       (resolve_start ops doc (cfrom change) d)"

text \<open>Line 49: the value of \<^verbatim>\<open>diffEnd\<close> for a given \<^verbatim>\<open>sameDepth\<close>.\<close>

definition diffEnd ::
  "('d, 's, 'n) docops \<Rightarrow> ('s, 'a) TrackedChange \<Rightarrow> 'd \<Rightarrow> int \<Rightarrow> (int \<times> int) option" where
  "diffEnd ops change doc d =
     findDiffEnd ops (resolve_node ops doc (cfrom change) d)
       (resolve_node ops (changedDoc ops change doc) (cfrom change) d)
       (resolve_end ops doc (cfrom change) d)
       (resolve_end ops (changedDoc ops change doc) (cfrom change) d)"

text \<open>
  The result is \<open>None\<close> when the call returns no value, \<open>Some None\<close> for \<^verbatim>\<open>null\<close> and
  \<open>Some (Some c)\<close> for a change. \<^verbatim>\<open>!diffStart\<close> holds for \<^verbatim>\<open>null\<close> and for \<open>0\<close>.
  The call returns no value in two cases: the loop of line 39 does not end, or line 47
  is reached. Line 47 evaluates \<^verbatim>\<open>tr.map(change.to)\<close>, where \<^verbatim>\<open>tr\<close> is the \<^verbatim>\<open>Transform\<close> of
  line 34; a \<^verbatim>\<open>Transform\<close> has no method \<^verbatim>\<open>map\<close> (its mapping is \<^verbatim>\<open>tr.mapping\<close>, as in line
  30), so the call throws before a change is built. The side with \<^verbatim>\<open>findDiffEnd\<close> has
  no such call.
\<close>

definition minimizeChange ::
  "('d, 's, 'n) docops \<Rightarrow> ('s, 'a) TrackedChange \<Rightarrow> 'd \<Rightarrow> int
     \<Rightarrow> ('s, 'a) TrackedChange option option" where
  "minimizeChange ops change doc side =
     (case sameDepth ops change doc of
        None \<Rightarrow> None
      | Some d \<Rightarrow>
          if side = - 1 then
            (case diffStart ops change doc d of
               None \<Rightarrow> Some None
             | Some ds \<Rightarrow>
                 if ds = 0 then Some None
                 else if ds = cfrom change \<or> ds \<ge> cto change then Some (Some change)
                 else None)
          else
            (case diffEnd ops change doc d of
               None \<Rightarrow> Some None
             | Some (a, b) \<Rightarrow>
                 if a = cto change \<or> a \<le> cfrom change \<or> b \<le> cfrom change
                 then Some (Some change)
                 else Some (Some \<lparr>cfrom = cfrom change, cto = a,
                        deleted = doc_slice ops (changedDoc ops change doc) (cfrom change) b,
                        author = author change, ident = None\<rparr>)))"

section \<open>\<^verbatim>\<open>mapChanges\<close> (lines 56-67)\<close>

text \<open>
  The array \<^verbatim>\<open>updated\<close> holds pairs (object, side); it is modelled by the list of its
  sides, the \<open>k\<close>-th pair belonging to the object with \<open>ident = Some k\<close>. The parameter
  is \<open>None\<close> when the caller passes no array (as in line 184). \<open>updated_side\<close> is
  \<^verbatim>\<open>(idx = updated.indexOf(change)) > -1\<close> followed by \<^verbatim>\<open>updated[idx + 1]\<close>.
\<close>

definition updated_side :: "int list option \<Rightarrow> ('s, 'a) TrackedChange \<Rightarrow> int option" where
  "updated_side updated change =
     (case updated of
        None \<Rightarrow> None
      | Some u \<Rightarrow>
          (case ident change of
             None \<Rightarrow> None
           | Some k \<Rightarrow> if k < length u then Some (u ! k) else None))"

text \<open>
  The parameter \<open>author\<close> is \<open>None\<close> when the caller passes none (as in line 184);
  \<^verbatim>\<open>author == change.author\<close> is then false. The parameter \<open>m\<close> is the method \<^verbatim>\<open>map\<close> of
  the object passed as \<^verbatim>\<open>map\<close>, which is a step map in line 83. (Line 184 passes the
  transaction itself; what is modelled of that line is the form of its call, without
  author and without array, not its argument.)
\<close>

fun mapChanges ::
  "('d, 's, 'n) docops \<Rightarrow> ('s, 'a) TrackedChange list \<Rightarrow> posmap \<Rightarrow> 'a option
     \<Rightarrow> int list option \<Rightarrow> 'd \<Rightarrow> ('s, 'a) TrackedChange list option" where
  "mapChanges ops [] m auth updated docAfter = Some []"
| "mapChanges ops (change # rest) m auth updated docAfter =
     (case TrackedChange_map ops change m (auth = Some (author change)) of
        None \<Rightarrow> mapChanges ops rest m auth updated docAfter
      | Some mapped \<Rightarrow>
          (case updated_side updated change of
             None \<Rightarrow> map_option ((#) mapped) (mapChanges ops rest m auth updated docAfter)
           | Some side \<Rightarrow>
               (case minimizeChange ops mapped docAfter side of
                  None \<Rightarrow> None
                | Some None \<Rightarrow> mapChanges ops rest m auth updated docAfter
                | Some (Some mapped') \<Rightarrow>
                    map_option ((#) mapped')
                      (mapChanges ops rest m auth updated docAfter))))"

section \<open>\<^verbatim>\<open>ChangeTracking.recordRange\<close> (lines 88-114)\<close>

text \<open>
  The inner loop of lines 97-105 over the changes after index \<open>i\<close>: it returns the
  changes pushed onto \<^verbatim>\<open>changes\<close> (and spliced out of \<^verbatim>\<open>this.changes\<close>) and the
  changes that stay.
\<close>

fun absorb ::
  "'a \<Rightarrow> int \<Rightarrow> ('s, 'a) TrackedChange list
     \<Rightarrow> ('s, 'a) TrackedChange list \<times> ('s, 'a) TrackedChange list" where
  "absorb auth to' [] = ([], [])"
| "absorb auth to' (next # rest) =
     (if author next \<noteq> auth then (case absorb auth to' rest of (ab, st) \<Rightarrow> (ab, next # st))
      else if cfrom next > to' then ([], next # rest)
      else (case absorb auth to' rest of (ab, st) \<Rightarrow> (next # ab, st)))"

text \<open>
  Lines 95-110 for the change found at index \<open>i\<close>: the new change that replaces it,
  the changes that stay after it, and the side pushed with it.
\<close>

definition merge_at ::
  "('d, 's, 'n) docops \<Rightarrow> 'd \<Rightarrow> int \<Rightarrow> int \<Rightarrow> 'a \<Rightarrow> nat \<Rightarrow> ('s, 'a) TrackedChange
     \<Rightarrow> ('s, 'a) TrackedChange list \<Rightarrow> ('s, 'a) TrackedChange list \<times> int" where
  "merge_at ops doc from' to' auth k change rest =
     (case absorb auth to' rest of
        (ab, st) \<Rightarrow>
          (let changes = change # ab;
               newContent = (from' < cfrom change \<or> to' > cto change \<or> ab \<noteq> []);
               newFrom = min (cfrom change) from';
               newTo = max (cto (last changes)) to';
               slice = (if newContent then applyAndSlice ops doc changes newFrom newTo
                        else deleted change)
           in (\<lparr>cfrom = newFrom, cto = newTo, deleted = slice, author = author change,
                 ident = Some k\<rparr> # st,
               if from' \<le> cfrom (hd changes) then - 1 else 1)))"

text \<open>
  The outer loop over \<^verbatim>\<open>this.changes\<close>. The result is the new value of
  \<^verbatim>\<open>this.changes\<close> and the sides pushed onto \<^verbatim>\<open>updatedChanges\<close> (none or one); \<open>k\<close> is
  the number of pairs already in \<^verbatim>\<open>updatedChanges\<close>.
\<close>

fun recordRange_loop ::
  "('d, 's, 'n) docops \<Rightarrow> 'd \<Rightarrow> int \<Rightarrow> int \<Rightarrow> 'a \<Rightarrow> nat \<Rightarrow> ('s, 'a) TrackedChange list
     \<Rightarrow> ('s, 'a) TrackedChange list \<times> int list" where
  "recordRange_loop ops doc from' to' auth k [] =
     ([\<lparr>cfrom = from', cto = to', deleted = doc_slice ops doc from' to', author = auth,
        ident = None\<rparr>], [])"
| "recordRange_loop ops doc from' to' auth k (change # rest) =
     (if author change \<noteq> auth \<or> cto change < from' then
        (case recordRange_loop ops doc from' to' auth k rest of
           (cs, u) \<Rightarrow> (change # cs, u))
      else if cfrom change > to' then
        (\<lparr>cfrom = from', cto = to', deleted = doc_slice ops doc from' to', author = auth,
          ident = None\<rparr> # change # rest, [])
      else
        (case merge_at ops doc from' to' auth k change rest of
           (cs, side) \<Rightarrow> (cs, [side])))"

text \<open>
  \<^verbatim>\<open>recordRange(doc, from, to, author, updatedChanges)\<close> on \<^verbatim>\<open>this.changes\<close>: the new
  \<^verbatim>\<open>this.changes\<close> and the new contents of \<^verbatim>\<open>updatedChanges\<close>.
\<close>

definition recordRange ::
  "('d, 's, 'n) docops \<Rightarrow> ('s, 'a) TrackedChange list \<Rightarrow> 'd \<Rightarrow> int \<Rightarrow> int \<Rightarrow> 'a \<Rightarrow> int list
     \<Rightarrow> ('s, 'a) TrackedChange list \<times> int list" where
  "recordRange ops changes doc from' to' auth updatedChanges =
     (case recordRange_loop ops doc from' to' auth (length updatedChanges) changes of
        (cs, u) \<Rightarrow> (cs, updatedChanges @ u))"

section \<open>\<^verbatim>\<open>ChangeTracking.record\<close> (lines 77-86)\<close>

text \<open>
  A step map as the code reads it: \<^verbatim>\<open>map.ranges\<close>, here a list of triples (start,
  old size, new size) instead of the flat array, and its method \<^verbatim>\<open>map\<close>.
\<close>

record StepMap =
  ranges :: "(int \<times> int \<times> int) list"
  map_pos :: posmap

text \<open>
  The transform passed to \<^verbatim>\<open>record\<close>: for each step the document before it
  (\<^verbatim>\<open>transform.docs[i]\<close>) and its map (\<^verbatim>\<open>transform.mapping.maps[i]\<close>), and the final
  document \<^verbatim>\<open>transform.doc\<close>.
\<close>

record 'd EditTransform =
  steps :: "('d \<times> StepMap) list"
  final_doc :: 'd

text \<open>The loop of lines 81-82 over the ranges of one map.\<close>

fun record_ranges ::
  "('d, 's, 'n) docops \<Rightarrow> 'd \<Rightarrow> 'a \<Rightarrow> (int \<times> int \<times> int) list
     \<Rightarrow> ('s, 'a) TrackedChange list \<times> int list \<Rightarrow> ('s, 'a) TrackedChange list \<times> int list" where
  "record_ranges ops doc auth [] st = st"
| "record_ranges ops doc auth ((start, oldSize, newSize) # rs) (changes, updated) =
     record_ranges ops doc auth rs
       (recordRange ops changes doc start (start + oldSize) auth updated)"

text \<open>
  The loop of lines 79-85 over the steps; \<^verbatim>\<open>transform.docs[i + 1] || transform.doc\<close> is
  the document before the next step, or the final one. Each step starts with an empty
  \<^verbatim>\<open>updated\<close> (line 78, line 84).
\<close>

fun record_steps ::
  "('d, 's, 'n) docops \<Rightarrow> 'a \<Rightarrow> 'd \<Rightarrow> ('d \<times> StepMap) list \<Rightarrow> ('s, 'a) TrackedChange list
     \<Rightarrow> ('s, 'a) TrackedChange list option" where
  "record_steps ops auth final [] changes = Some changes"
| "record_steps ops auth final ((doc, m) # later) changes =
     (case record_ranges ops doc auth (ranges m) (changes, []) of
        (changes', updated) \<Rightarrow>
          (case mapChanges ops changes' (map_pos m) (Some auth) (Some updated)
                  (case later of [] \<Rightarrow> final | (doc', m') # later' \<Rightarrow> doc') of
             None \<Rightarrow> None
           | Some changes'' \<Rightarrow> record_steps ops auth final later changes''))"

definition ChangeTracking_record ::
  "('d, 's, 'n) docops \<Rightarrow> ('s, 'a) TrackedChange list \<Rightarrow> 'd EditTransform \<Rightarrow> 'a
     \<Rightarrow> ('s, 'a) TrackedChange list option" where
  "ChangeTracking_record ops changes transform auth =
     record_steps ops auth (final_doc transform) (steps transform) changes"

section \<open>Plain-text documents\<close>

text \<open>
  Concrete inputs need concrete documents. The following is a reference interpretation
  of the editing library on documents that consist of one paragraph of unmarked text,
  written after the library's published behaviour; the general theorems below do not
  depend on it. The document is the text of its paragraph. Position \<open>0\<close> is before the
  paragraph, position \<open>1\<close> is the start of its text and position \<open>length text + 1\<close> its
  end; slices and replacements lie inside the paragraph.

  \<open>StepMap_map\<close> is the library's \<^verbatim>\<open>StepMap.map\<close>: positions before a replaced range
  are kept, positions after it are shifted, and a position inside it or at its
  boundary goes to the start or to the end of the new content: to the start when the
  position is the start of a non-empty old range, to the end when it is its end, and
  by the bias otherwise.
\<close>

fun StepMap_loop :: "(int \<times> int \<times> int) list \<Rightarrow> int \<Rightarrow> int \<Rightarrow> int \<Rightarrow> int" where
  "StepMap_loop [] diff pos bias = pos + diff"
| "StepMap_loop ((start, oldSize, newSize) # rs) diff pos bias =
     (if start > pos then pos + diff
      else if pos \<le> start + oldSize then
        (let side = (if oldSize = 0 then bias else if pos = start then - 1
                     else if pos = start + oldSize then 1 else bias)
         in start + diff + (if side < 0 then 0 else newSize))
      else StepMap_loop rs (diff + newSize - oldSize) pos bias)"

definition StepMap_map :: "(int \<times> int \<times> int) list \<Rightarrow> posmap" where
  "StepMap_map rs pos bias = StepMap_loop rs 0 pos bias"

definition new_StepMap :: "(int \<times> int \<times> int) list \<Rightarrow> StepMap" where
  "new_StepMap rs = \<lparr>ranges = rs, map_pos = StepMap_map rs\<rparr>"

fun common_prefix :: "'c list \<Rightarrow> 'c list \<Rightarrow> nat" where
  "common_prefix (x # xs) (y # ys) = (if x = y then Suc (common_prefix xs ys) else 0)"
| "common_prefix xs ys = 0"

definition text_replace :: "string \<Rightarrow> int \<Rightarrow> int \<Rightarrow> string \<Rightarrow> string" where
  "text_replace d f t s = take (nat (f - 1)) d @ s @ drop (nat (t - 1)) d"

definition text_ops :: "(string, string, int \<times> string) docops" where
  "text_ops =
     \<lparr>doc_slice = (\<lambda>d f t. take (nat (t - f)) (drop (nat (f - 1)) d)),
      slice_size = (\<lambda>s. int (length s)),
      doc_replace = (\<lambda>d f t s. (text_replace d f t s,
                                 StepMap_map [(f, t - f, int (length s))])),
      resolve_depth = (\<lambda>d p. 1),
      resolve_end = (\<lambda>d p k. if k = 1 then int (length d) + 1 else int (length d) + 2),
      resolve_start = (\<lambda>d p k. if k = 1 then 1 else 0),
      resolve_node = (\<lambda>d p k. (k, d)),
      findDiffStart = (\<lambda>a b pos. if snd a = snd b then None
         else Some (pos + (if fst a = 1 then 0 else 1) + int (common_prefix (snd a) (snd b)))),
      findDiffEnd = (\<lambda>a b posA posB. if snd a = snd b then None
         else (let same = int (common_prefix (rev (snd a)) (rev (snd b)));
                   inner = (if fst a = 1 then 0 else 1)
               in Some (posA - inner - same, posB - inner - same)))\<rparr>"

text \<open>
  The transform of one replacement of \<open>[f, t)\<close> by the text \<open>s\<close> in the document \<open>d\<close>
  (an insertion when \<open>f = t\<close>, a deletion when \<open>s\<close> is empty).
\<close>

definition text_edit :: "string \<Rightarrow> int \<Rightarrow> int \<Rightarrow> string \<Rightarrow> string EditTransform" where
  "text_edit d f t s =
     \<lparr>steps = [(d, new_StepMap [(f, t - f, int (length s))])],
      final_doc = text_replace d f t s\<rparr>"

section \<open>Documents of whole blocks\<close>

text \<open>
  A second reference interpretation, for edits that replace whole top-level blocks. A
  document is the list of its blocks, each a markup name and a text; a block of text
  \<open>t\<close> has size \<open>length t + 2\<close>. Positions are the boundaries between blocks, all at
  depth \<open>0\<close>. \<open>blocks_diffStart\<close> follows the library's \<^verbatim>\<open>findDiffStart\<close>: equal
  children are skipped whole, children of different markup differ at their start, and
  children of the same markup differ inside, after their common text.
\<close>

type_synonym block = "string \<times> string"

definition block_size :: "block \<Rightarrow> int" where
  "block_size b = int (length (snd b)) + 2"

definition blocks_size :: "block list \<Rightarrow> int" where
  "blocks_size bs = sum_list (map block_size bs)"

fun blocks_split :: "block list \<Rightarrow> int \<Rightarrow> block list \<times> block list" where
  "blocks_split [] p = ([], [])"
| "blocks_split (b # bs) p =
     (if p \<le> 0 then ([], b # bs)
      else (case blocks_split bs (p - block_size b) of (l, r) \<Rightarrow> (b # l, r)))"

fun blocks_diffStart :: "block list \<Rightarrow> block list \<Rightarrow> int \<Rightarrow> int option" where
  "blocks_diffStart [] [] pos = None"
| "blocks_diffStart [] (y # ys) pos = Some pos"
| "blocks_diffStart (x # xs) [] pos = Some pos"
| "blocks_diffStart (x # xs) (y # ys) pos =
     (if x = y then blocks_diffStart xs ys (pos + block_size x)
      else if fst x \<noteq> fst y then Some pos
      else Some (pos + 1 + int (common_prefix (snd x) (snd y))))"

fun blocks_diffEnd :: "block list \<Rightarrow> block list \<Rightarrow> int \<Rightarrow> int \<Rightarrow> (int \<times> int) option" where
  "blocks_diffEnd [] [] posA posB = None"
| "blocks_diffEnd [] (y # ys) posA posB = Some (posA, posB)"
| "blocks_diffEnd (x # xs) [] posA posB = Some (posA, posB)"
| "blocks_diffEnd (x # xs) (y # ys) posA posB =
     (if x = y then blocks_diffEnd xs ys (posA - block_size x) (posB - block_size x)
      else if fst x \<noteq> fst y then Some (posA, posB)
      else (let same = int (common_prefix (rev (snd x)) (rev (snd y)))
            in Some (posA - 1 - same, posB - 1 - same)))"

definition block_ops :: "(block list, block list, block list) docops" where
  "block_ops =
     \<lparr>doc_slice = (\<lambda>d f t. fst (blocks_split (snd (blocks_split d f)) (t - f))),
      slice_size = blocks_size,
      doc_replace = (\<lambda>d f t s. (fst (blocks_split d f) @ s @ snd (blocks_split d t),
                                 StepMap_map [(f, t - f, blocks_size s)])),
      resolve_depth = (\<lambda>d p. 0),
      resolve_end = (\<lambda>d p k. blocks_size d),
      resolve_start = (\<lambda>d p k. 0),
      resolve_node = (\<lambda>d p k. d),
      findDiffStart = blocks_diffStart,
      findDiffEnd = (\<lambda>a b posA posB. blocks_diffEnd (rev a) (rev b) posA posB)\<rparr>"

definition block_edit ::
  "block list \<Rightarrow> int \<Rightarrow> int \<Rightarrow> block list \<Rightarrow> block list EditTransform" where
  "block_edit d f t s =
     \<lparr>steps = [(d, new_StepMap [(f, t - f, blocks_size s)])],
      final_doc = fst (blocks_split d f) @ s @ snd (blocks_split d t)\<rparr>"

section \<open>Sessions on plain-text documents\<close>

text \<open>
  A sequence of edits by the author \<open>x\<close>, each a replacement of \<open>[f, t)\<close> by a text, each
  dispatched as a transaction of its own (as the functions \<^verbatim>\<open>ins\<close> and \<^verbatim>\<open>del\<close> of
  \<^verbatim>\<open>src/test.js\<close> do), starting from the document \<open>d\<close>. \<open>spans\<close> shows a change set
  the way \<^verbatim>\<open>src/test.js\<close> prints it: from, to and deleted content.
\<close>

fun text_session ::
  "string \<Rightarrow> (int \<times> int \<times> string) list \<Rightarrow> (string, char) TrackedChange list
     \<Rightarrow> (string, char) TrackedChange list option" where
  "text_session d [] cs = Some cs"
| "text_session d ((f, t, s) # es) cs =
     (case ChangeTracking_record text_ops cs (text_edit d f t s) (CHR ''x'') of
        None \<Rightarrow> None
      | Some cs' \<Rightarrow> text_session (text_replace d f t s) es cs')"

definition spans :: "('s, 'a) TrackedChange list \<Rightarrow> (int \<times> int \<times> 's) list" where
  "spans cs = map (\<lambda>c. (cfrom c, cto c, deleted c)) cs"

section \<open>Properties of change sets\<close>

text \<open>
  A change touches the span \<open>[f, t)\<close> of an author when it is the author's and its range
  intersects or touches the span.
\<close>

definition touches :: "'a \<Rightarrow> int \<Rightarrow> int \<Rightarrow> ('s, 'a) TrackedChange \<Rightarrow> bool" where
  "touches a f t c \<longleftrightarrow> author c = a \<and> f \<le> cto c \<and> cfrom c \<le> t"

text \<open>
  A change \<open>covers\<close> a span when the span lies inside its range. With respect to the
  span \<open>[f, t)\<close> of an author, a change is \<open>settled\<close> when, if it is the author's, it
  covers the span or does not touch it; two changes are \<open>single\<close> when they do not
  both touch the span.
\<close>

definition covers :: "int \<Rightarrow> int \<Rightarrow> ('s, 'a) TrackedChange \<Rightarrow> bool" where
  "covers f t c \<longleftrightarrow> cfrom c \<le> f \<and> t \<le> cto c"

definition settled :: "'a \<Rightarrow> int \<Rightarrow> int \<Rightarrow> ('s, 'a) TrackedChange \<Rightarrow> bool" where
  "settled a f t c \<longleftrightarrow> (author c = a \<longrightarrow> covers f t c \<or> \<not> touches a f t c)"

definition single ::
  "'a \<Rightarrow> int \<Rightarrow> int \<Rightarrow> ('s, 'a) TrackedChange \<Rightarrow> ('s, 'a) TrackedChange \<Rightarrow> bool" where
  "single a f t c d \<longleftrightarrow> \<not> (touches a f t c \<and> touches a f t d)"

text \<open>
  Two changes in list order are \<open>linked\<close> when, if they have the same author, the first
  ends at or before the start of the second, and \<open>apart\<close> when it ends strictly before
  it. A change set is \<open>chained\<close> (\<open>nonoverlap\<close>) when every change is linked to (apart
  from) all later ones and no range is reversed. \<open>nonoverlap\<close> is the invariant of the
  specification; \<open>chained\<close> allows changes of one author to touch.
\<close>

definition linked :: "('s, 'a) TrackedChange \<Rightarrow> ('s, 'a) TrackedChange \<Rightarrow> bool" where
  "linked c d \<longleftrightarrow> (author c = author d \<longrightarrow> cto c \<le> cfrom d)"

definition chained :: "('s, 'a) TrackedChange list \<Rightarrow> bool" where
  "chained cs \<longleftrightarrow> sorted_wrt linked cs \<and> (\<forall>c\<in>set cs. cfrom c \<le> cto c)"

definition apart :: "('s, 'a) TrackedChange \<Rightarrow> ('s, 'a) TrackedChange \<Rightarrow> bool" where
  "apart c d \<longleftrightarrow> (author c = author d \<longrightarrow> cto c < cfrom d)"

definition nonoverlap :: "('s, 'a) TrackedChange list \<Rightarrow> bool" where
  "nonoverlap cs \<longleftrightarrow> sorted_wrt apart cs \<and> (\<forall>c\<in>set cs. cfrom c \<le> cto c)"

text \<open>
  \<open>ordered\<close>: changes of the same author start in list order. A change set is
  \<open>author_sorted\<close> when this holds for every change and all later ones and no range is
  reversed.
\<close>

definition ordered :: "('s, 'a) TrackedChange \<Rightarrow> ('s, 'a) TrackedChange \<Rightarrow> bool" where
  "ordered c d \<longleftrightarrow> (author c = author d \<longrightarrow> cfrom c \<le> cfrom d)"

definition author_sorted :: "('s, 'a) TrackedChange list \<Rightarrow> bool" where
  "author_sorted cs \<longleftrightarrow> sorted_wrt ordered cs \<and> (\<forall>c\<in>set cs. cfrom c \<le> cto c)"

text \<open>
  \<open>derived\<close>: the change \<open>y\<close> is what \<^verbatim>\<open>mapChanges\<close> may push for the change \<open>c\<close>: the
  mapped change, or the result of minimizing it when \<open>c\<close> is in \<^verbatim>\<open>updated\<close>.
\<close>

definition derived ::
  "('d, 's, 'n) docops \<Rightarrow> posmap \<Rightarrow> 'a option \<Rightarrow> int list option \<Rightarrow> 'd
     \<Rightarrow> ('s, 'a) TrackedChange \<Rightarrow> ('s, 'a) TrackedChange \<Rightarrow> bool" where
  "derived ops m auth u d c y \<longleftrightarrow>
     (\<exists>mapped. TrackedChange_map ops c m (auth = Some (author c)) = Some mapped \<and>
        (y = mapped \<or>
         (\<exists>side. updated_side u c = Some side \<and>
            minimizeChange ops mapped d side = Some (Some y))))"

text \<open>
  Conditions on a position map. A map is \<open>spreading\<close> when it keeps distinct positions
  distinct and in order whatever the biases; the map of a step that only inserts is
  one, the map of a deletion is not (it sends the whole deleted range to one position).
  A map is \<open>monotone_across\<close> when a position mapped with bias \<open>-1\<close> never passes a
  later position mapped with bias \<open>1\<close>. \<open>replace_map s old new m\<close> says that \<open>m\<close> is the
  map of a step that replaces the \<open>old\<close> positions after \<open>s\<close> by \<open>new\<close> positions:
  positions before the range stay, positions after it are shifted, positions of the
  range go into the new range, and \<open>m\<close> is \<open>monotone_across\<close>. The map of a library
  step with one range is one (\<open>replace_map_StepMap\<close> below).
\<close>

definition spreading :: "posmap \<Rightarrow> bool" where
  "spreading m \<longleftrightarrow> (\<forall>p q b b'. p < q \<longrightarrow> m p b < m q b')"

definition monotone_across :: "posmap \<Rightarrow> bool" where
  "monotone_across m \<longleftrightarrow> (\<forall>p q. p \<le> q \<longrightarrow> m p (- 1) \<le> m q 1)"

definition replace_map :: "int \<Rightarrow> int \<Rightarrow> int \<Rightarrow> posmap \<Rightarrow> bool" where
  "replace_map s old new m \<longleftrightarrow>
     0 \<le> old \<and> 0 \<le> new \<and>
     (\<forall>p b. p < s \<longrightarrow> m p b = p) \<and>
     (\<forall>p b. s + old < p \<longrightarrow> m p b = p + new - old) \<and>
     (\<forall>p b. s \<le> p \<and> p \<le> s + old \<longrightarrow> s \<le> m p b \<and> m p b \<le> s + new) \<and>
     monotone_across m"

text \<open>
  The condition on the minimizer in a call of \<^verbatim>\<open>mapChanges\<close>: every change that it
  returns lies inside the mapped change it was given. It holds trivially when there
  is no \<^verbatim>\<open>updated\<close> array or when it is empty. \<open>step_shrinks\<close> is this condition for
  the call of \<^verbatim>\<open>mapChanges\<close> in \<^verbatim>\<open>record\<close> (line 83) for a step with the one range
  \<open>(s, old, new)\<close>, that is, after \<^verbatim>\<open>recordRange\<close> for the span \<open>[s, s + old)\<close>.
\<close>

definition minimize_shrinks ::
  "('d, 's, 'n) docops \<Rightarrow> ('s, 'a) TrackedChange list \<Rightarrow> posmap \<Rightarrow> 'a option
     \<Rightarrow> int list option \<Rightarrow> 'd \<Rightarrow> bool" where
  "minimize_shrinks ops cs m auth u d \<longleftrightarrow>
     (\<forall>c\<in>set cs. \<forall>mapped side y.
        TrackedChange_map ops c m (auth = Some (author c)) = Some mapped \<longrightarrow>
        updated_side u c = Some side \<longrightarrow>
        minimizeChange ops mapped d side = Some (Some y) \<longrightarrow>
        cfrom mapped \<le> cfrom y \<and> cto y \<le> cto mapped)"

definition step_shrinks ::
  "('d, 's, 'n) docops \<Rightarrow> ('s, 'a) TrackedChange list \<Rightarrow> 'd \<Rightarrow> int \<Rightarrow> int \<Rightarrow> posmap \<Rightarrow> 'a
     \<Rightarrow> 'd \<Rightarrow> bool" where
  "step_shrinks ops cs doc s old m a d \<longleftrightarrow>
     minimize_shrinks ops (fst (recordRange ops cs doc s (s + old) a [])) m (Some a)
       (Some (snd (recordRange ops cs doc s (s + old) a []))) d"

text \<open>
  The change sets that can be reached from the empty one. For \<open>reach_apart\<close> the
  operations are: a call of \<^verbatim>\<open>recordRange\<close> (any document, any span with \<open>from \<le> to\<close>,
  any author); a call of \<^verbatim>\<open>mapChanges\<close> that returns, with a \<open>spreading\<close> map and a
  minimizer that only shrinks; and a call of \<^verbatim>\<open>record\<close> that returns (rule \<open>edit\<close>),
  for a transform of one step with one range whose map is a \<open>replace_map\<close> of that
  range, by the author of all the changes of the set, with a minimizer that only
  shrinks.
\<close>

inductive reach_apart ::
  "('d, 's, 'n) docops \<Rightarrow> ('s, 'a) TrackedChange list \<Rightarrow> bool" for ops where
  init: "reach_apart ops []"
| rec: "reach_apart ops cs \<Longrightarrow> f \<le> t \<Longrightarrow>
        reach_apart ops (fst (recordRange ops cs doc f t a u))"
| mapc: "reach_apart ops cs \<Longrightarrow> spreading m \<Longrightarrow> minimize_shrinks ops cs m auth u d \<Longrightarrow>
         mapChanges ops cs m auth u d = Some cs' \<Longrightarrow> reach_apart ops cs'"
| edit: "reach_apart ops cs \<Longrightarrow> \<forall>c\<in>set cs. author c = a \<Longrightarrow>
         steps tr = [(doc, sm)] \<Longrightarrow> ranges sm = [(s, old, new)] \<Longrightarrow>
         replace_map s old new (map_pos sm) \<Longrightarrow>
         step_shrinks ops cs doc s old (map_pos sm) a (final_doc tr) \<Longrightarrow>
         ChangeTracking_record ops cs tr a = Some cs' \<Longrightarrow> reach_apart ops cs'"

text \<open>
  For \<open>reach_chained\<close> the operations are: a call of \<^verbatim>\<open>recordRange\<close> with
  \<open>from \<le> to\<close>; a call of \<^verbatim>\<open>mapChanges\<close> that returns (rule \<open>untracked\<close>), for an author
  who has no change in the set or for no author (as in line 184), with a
  \<open>monotone_across\<close> map and a minimizer that only shrinks; and a call of \<^verbatim>\<open>record\<close>
  that returns (rule \<open>edit\<close>), for a transform of one step with one range whose map is
  a \<open>replace_map\<close> of that range, by any author, with a minimizer that only shrinks.
\<close>

inductive reach_chained ::
  "('d, 's, 'n) docops \<Rightarrow> ('s, 'a) TrackedChange list \<Rightarrow> bool" for ops where
  init: "reach_chained ops []"
| rec: "reach_chained ops cs \<Longrightarrow> f \<le> t \<Longrightarrow>
        reach_chained ops (fst (recordRange ops cs doc f t a u))"
| untracked: "reach_chained ops cs \<Longrightarrow> monotone_across m \<Longrightarrow>
         \<forall>c\<in>set cs. auth \<noteq> Some (author c) \<Longrightarrow> minimize_shrinks ops cs m auth u d \<Longrightarrow>
         mapChanges ops cs m auth u d = Some cs' \<Longrightarrow> reach_chained ops cs'"
| edit: "reach_chained ops cs \<Longrightarrow>
         steps tr = [(doc, sm)] \<Longrightarrow> ranges sm = [(s, old, new)] \<Longrightarrow>
         replace_map s old new (map_pos sm) \<Longrightarrow>
         step_shrinks ops cs doc s old (map_pos sm) a (final_doc tr) \<Longrightarrow>
         ChangeTracking_record ops cs tr a = Some cs' \<Longrightarrow> reach_chained ops cs'"

text \<open>
  Reverting. \<^verbatim>\<open>revertChange\<close> (line 160) replaces the range of a change by its deleted
  content, which is also what \<^verbatim>\<open>minimizeChange\<close> does to obtain \<^verbatim>\<open>changedDoc\<close> (lines
  34-35). \<open>revert_all\<close> reverts all the changes of a list, the last one first, so
  that the positions of the changes still to be reverted stay valid. \<open>moved k c\<close> is
  the change \<open>c\<close> with both ends moved by \<open>k\<close>.
\<close>

definition revert_all ::
  "('d, 's, 'n) docops \<Rightarrow> 'd \<Rightarrow> ('s, 'a) TrackedChange list \<Rightarrow> 'd" where
  "revert_all ops d cs = foldr (\<lambda>c e. changedDoc ops c e) cs d"



text \<open>
  For the proofs about sessions. \<open>within lo hi cs\<close>: the changes of \<open>cs\<close> lie between
  \<open>lo\<close> and \<open>hi\<close>, in list order, without overlap and with no range reversed.
  \<open>placed f t lo hi cs\<close>: moreover exactly one of them covers the span \<open>[f, t)\<close>, those
  before it end before \<open>f\<close>, those after it start after \<open>t\<close>, and only the covering
  one may be in \<^verbatim>\<open>updated\<close>. \<open>mid d cs lo hi\<close>: the text of \<open>d\<close> between \<open>lo\<close> and \<open>hi\<close> with
  the changes of \<open>cs\<close> reverted. \<open>shift_sum cs\<close>: by how much reverting the changes of
  \<open>cs\<close> lengthens the text.
\<close>

fun within :: "int \<Rightarrow> int \<Rightarrow> ('s, 'a) TrackedChange list \<Rightarrow> bool" where
  "within lo hi [] \<longleftrightarrow> lo \<le> hi"
| "within lo hi (c # cs) \<longleftrightarrow> lo \<le> cfrom c \<and> cfrom c \<le> cto c \<and> within (cto c) hi cs"


fun mid :: "string \<Rightarrow> (string, 'a) TrackedChange list \<Rightarrow> int \<Rightarrow> int \<Rightarrow> string" where
  "mid d [] lo hi = take (nat (hi - lo)) (drop (nat (lo - 1)) d)"
| "mid d (c # cs) lo hi =
     take (nat (cfrom c - lo)) (drop (nat (lo - 1)) d) @ deleted c @ mid d cs (cto c) hi"

fun shift_sum :: "(string, 'a) TrackedChange list \<Rightarrow> int" where
  "shift_sum [] = 0"
| "shift_sum (c # cs) = int (length (deleted c)) - (cto c - cfrom c) + shift_sum cs"

section \<open>Evaluation of the reference documents\<close>

lemma text_sameDepth:
  "cto c \<le> int (length doc) + 1 \<Longrightarrow>
   cfrom c + int (length (deleted c))
     \<le> int (length (text_replace doc (cfrom c) (cto c) (deleted c))) + 1 \<Longrightarrow>
   sameDepth text_ops c doc = Some 1"
  by (simp add: sameDepth_def changedDoc_def revertTransform_def Transform_replace_def
      new_Transform_def text_ops_def sameDepth_loop.simps)

lemma block_sameDepth:
  "cto c \<le> blocks_size doc \<Longrightarrow>
   cfrom c + blocks_size (deleted c) \<le> blocks_size (changedDoc block_ops c doc) \<Longrightarrow>
   sameDepth block_ops c doc = Some 0"
  by (simp add: sameDepth_def block_ops_def sameDepth_loop.simps)

section \<open>Mapping a change (C4)\<close>

lemma mapChanges_plain:
  "\<forall>c\<in>set cs. updated_side u c = None \<Longrightarrow>
   mapChanges ops cs m auth u docAfter =
     Some (List.map_filter (\<lambda>c. TrackedChange_map ops c m (auth = Some (author c))) cs)"
  by (induction cs) (simp_all add: map_filter_simps split: option.splits)

lemma mapChanges_entries:
  "mapChanges ops cs m auth u docAfter =
     map_option concat (those (map (\<lambda>c.
       case TrackedChange_map ops c m (auth = Some (author c)) of
         None \<Rightarrow> Some []
       | Some mapped \<Rightarrow>
           (case updated_side u c of
              None \<Rightarrow> Some [mapped]
            | Some side \<Rightarrow>
                map_option (\<lambda>r. case r of None \<Rightarrow> [] | Some y \<Rightarrow> [y])
                  (minimizeChange ops mapped docAfter side))) cs))"
proof (induction cs)
  case Nil
  show ?case by simp
next
  case (Cons c cs)
  show ?case
  proof (cases "mapChanges ops cs m auth u docAfter")
    case None
    with Cons show ?thesis by (auto simp: option.map_comp comp_def split: option.splits)
  next
    case (Some r)
    with Cons show ?thesis by (auto simp: option.map_comp comp_def split: option.splits)
  qed
qed

text \<open>
  Claim C4, as amended. \<^verbatim>\<open>TrackedChange.map\<close> returns \<^verbatim>\<open>null\<close> exactly when the mapped
  endpoints satisfy \<open>from > to\<close>, or \<open>from = to\<close> with deleted content of size \<open>0\<close>;
  otherwise the mapped change has the mapped endpoints and the deleted content and
  author of the original. The result list of \<^verbatim>\<open>mapChanges\<close> is made, in order, of one
  entry for every change: nothing for a change that \<^verbatim>\<open>map\<close> drops; the mapped change
  for a change that \<^verbatim>\<open>map\<close> keeps and that is not in \<^verbatim>\<open>updated\<close>; and, for a change that
  \<^verbatim>\<open>map\<close> keeps and that is in \<^verbatim>\<open>updated\<close>, what \<^verbatim>\<open>minimizeChange\<close> returns for the mapped
  change: nothing when it returns \<^verbatim>\<open>null\<close>, else the change it returns. There is no
  result list when one of these calls of \<^verbatim>\<open>minimizeChange\<close> returns nothing. So when no
  change is in \<^verbatim>\<open>updated\<close> (always, when no array is passed) the result is exactly the
  list of the changes that \<^verbatim>\<open>map\<close> keeps.
\<close>

theorem map_drops_iff:
  "(TrackedChange_map ops c m inclusive = None \<longleftrightarrow>
      m (cfrom c) (if inclusive then - 1 else 1) > m (cto c) (if inclusive then 1 else - 1) \<or>
      (m (cfrom c) (if inclusive then - 1 else 1) = m (cto c) (if inclusive then 1 else - 1) \<and>
       slice_size ops (deleted c) = 0)) \<and>
   (\<forall>c'. TrackedChange_map ops c m inclusive = Some c' \<longrightarrow>
      cfrom c' = m (cfrom c) (if inclusive then - 1 else 1) \<and>
      cto c' = m (cto c) (if inclusive then 1 else - 1) \<and>
      deleted c' = deleted c \<and> author c' = author c) \<and>
   mapChanges ops cs m auth u docAfter =
     map_option concat (those (map (\<lambda>c.
       case TrackedChange_map ops c m (auth = Some (author c)) of
         None \<Rightarrow> Some []
       | Some mapped \<Rightarrow>
           (case updated_side u c of
              None \<Rightarrow> Some [mapped]
            | Some side \<Rightarrow>
                map_option (\<lambda>r. case r of None \<Rightarrow> [] | Some y \<Rightarrow> [y])
                  (minimizeChange ops mapped docAfter side))) cs)) \<and>
   ((\<forall>c\<in>set cs. updated_side u c = None) \<longrightarrow>
      mapChanges ops cs m auth u docAfter =
        Some (List.map_filter (\<lambda>c. TrackedChange_map ops c m (auth = Some (author c))) cs)) \<and>
   mapChanges ops cs m auth None docAfter =
     Some (List.map_filter (\<lambda>c. TrackedChange_map ops c m (auth = Some (author c))) cs)"
proof -
  have 1: "TrackedChange_map ops c m inclusive = None \<longleftrightarrow>
      m (cfrom c) (if inclusive then - 1 else 1) > m (cto c) (if inclusive then 1 else - 1) \<or>
      (m (cfrom c) (if inclusive then - 1 else 1) = m (cto c) (if inclusive then 1 else - 1) \<and>
       slice_size ops (deleted c) = 0)"
    by (auto simp: TrackedChange_map_def Let_def)
  have 2: "\<forall>c'. TrackedChange_map ops c m inclusive = Some c' \<longrightarrow>
      cfrom c' = m (cfrom c) (if inclusive then - 1 else 1) \<and>
      cto c' = m (cto c) (if inclusive then 1 else - 1) \<and>
      deleted c' = deleted c \<and> author c' = author c"
    by (auto simp: TrackedChange_map_def Let_def)
  have 3: "mapChanges ops cs m auth None docAfter =
     Some (List.map_filter (\<lambda>c. TrackedChange_map ops c m (auth = Some (author c))) cs)"
    by (rule mapChanges_plain) (simp add: updated_side_def)
  from 1 2 3 mapChanges_entries [of ops cs m auth u docAfter]
    mapChanges_plain [of cs u ops m auth docAfter]
  show ?thesis by blast
qed

text \<open>
  Witness: the map of a deletion of \<open>[2, 4)\<close>: an insertion annotation \<open>[2, 4)\<close> of the
  deleting author collapses and is dropped; with deleted content \<open>oo\<close> it is kept as
  \<open>[2, 2)\<close>. And the call of \<^verbatim>\<open>mapChanges\<close> that \<^verbatim>\<open>record\<close> makes when \<open>x\<close> inserts \<open>y\<close> at
  \<open>3\<close> into \<open>axcd\<close>, with the changes \<open>[2, 4)\<close> (in \<^verbatim>\<open>updated\<close>, side \<open>1\<close>) and \<open>[5, 5)\<close>:
  the first is mapped to \<open>[2, 5)\<close> and the minimizer returns \<open>[2, 4)\<close> with deleted
  content \<open>b\<close>; the second is mapped to \<open>[6, 6)\<close>.
\<close>

theorem map_drops_iff_witness:
  "TrackedChange_map text_ops
      \<lparr>cfrom = 2, cto = 4, deleted = '''', author = CHR ''x'', ident = None\<rparr>
      (StepMap_map [(2, 2, 0)]) True = None \<and>
   TrackedChange_map text_ops
      \<lparr>cfrom = 2, cto = 4, deleted = ''oo'', author = CHR ''x'', ident = None\<rparr>
      (StepMap_map [(2, 2, 0)]) True
     = Some \<lparr>cfrom = 2, cto = 2, deleted = ''oo'', author = CHR ''x'', ident = None\<rparr> \<and>
   mapChanges text_ops
      [\<lparr>cfrom = 2, cto = 4, deleted = ''bc'', author = CHR ''x'', ident = Some 0\<rparr>,
       \<lparr>cfrom = 5, cto = 5, deleted = ''e'', author = CHR ''x'', ident = None\<rparr>]
      (StepMap_map [(3, 0, 1)]) (Some (CHR ''x'')) (Some [1]) ''axycd''
     = Some [\<lparr>cfrom = 2, cto = 4, deleted = ''b'', author = CHR ''x'', ident = None\<rparr>,
             \<lparr>cfrom = 6, cto = 6, deleted = ''e'', author = CHR ''x'', ident = None\<rparr>]"
proof -
  let ?c1 = "\<lparr>cfrom = 2, cto = 4, deleted = ''bc'', author = CHR ''x'', ident = Some 0\<rparr>
               :: (string, char) TrackedChange"
  let ?c2 = "\<lparr>cfrom = 5, cto = 5, deleted = ''e'', author = CHR ''x'', ident = None\<rparr>
               :: (string, char) TrackedChange"
  let ?m1 = "\<lparr>cfrom = 2, cto = 5, deleted = ''bc'', author = CHR ''x'', ident = None\<rparr>
               :: (string, char) TrackedChange"
  let ?m2 = "\<lparr>cfrom = 6, cto = 6, deleted = ''e'', author = CHR ''x'', ident = None\<rparr>
               :: (string, char) TrackedChange"
  have t1: "TrackedChange_map text_ops ?c1 (StepMap_map [(3, 0, 1)]) True = Some ?m1"
    by code_simp
  have t2: "TrackedChange_map text_ops ?c2 (StepMap_map [(3, 0, 1)]) True = Some ?m2"
    by code_simp
  have n1: "minimizeChange text_ops ?m1 ''axycd'' 1
              = Some (Some \<lparr>cfrom = 2, cto = 4, deleted = ''b'', author = CHR ''x'',
                             ident = None\<rparr>)"
    by code_simp
  have a: "TrackedChange_map text_ops
      \<lparr>cfrom = 2, cto = 4, deleted = '''', author = CHR ''x'', ident = None\<rparr>
      (StepMap_map [(2, 2, 0)]) True = None"
    using map_drops_iff [of text_ops
      "\<lparr>cfrom = 2, cto = 4, deleted = '''', author = CHR ''x'', ident = None\<rparr>"
      "StepMap_map [(2, 2, 0)]" True "[]" None None "''fbar''"]
    by (simp add: text_ops_def StepMap_map_def)
  have b: "TrackedChange_map text_ops
      \<lparr>cfrom = 2, cto = 4, deleted = ''oo'', author = CHR ''x'', ident = None\<rparr>
      (StepMap_map [(2, 2, 0)]) True
     = Some \<lparr>cfrom = 2, cto = 2, deleted = ''oo'', author = CHR ''x'', ident = None\<rparr>"
    by code_simp
  from map_drops_iff [of text_ops ?c1 "StepMap_map [(3, 0, 1)]" True "[?c1, ?c2]"
      "Some (CHR ''x'')" "Some [1]" "''axycd''"]
  have "mapChanges text_ops [?c1, ?c2] (StepMap_map [(3, 0, 1)]) (Some (CHR ''x'')) (Some [1])
          ''axycd''
     = Some [\<lparr>cfrom = 2, cto = 4, deleted = ''b'', author = CHR ''x'', ident = None\<rparr>, ?m2]"
    by (simp add: t1 t2 n1 updated_side_def)
  with a b show ?thesis by simp
qed

text \<open>
  Counterexample to C4 as stated: the second step of the test \<^verbatim>\<open>del_add_cancel\<close>. In
  \<open>f\<close>, where \<open>x\<close> has deleted \<open>oo\<close> at \<open>2\<close>, \<open>x\<close> inserts \<open>oo\<close> at \<open>2\<close>. \<^verbatim>\<open>recordRange\<close>
  puts the change into \<^verbatim>\<open>updated\<close>; \<^verbatim>\<open>map\<close> keeps it, as \<open>[2, 4)\<close> with deleted content
  \<open>oo\<close>: the mapped endpoints are neither reversed nor equal. The minimizer then finds
  no divergence and returns \<^verbatim>\<open>null\<close>, and the change is not in the result list.
\<close>

theorem kept_change_is_minimized_away_counterexample:
  "recordRange text_ops
      [\<lparr>cfrom = 2, cto = 2, deleted = ''oo'', author = CHR ''x'', ident = None\<rparr>]
      ''f'' 2 2 (CHR ''x'') []
     = ([\<lparr>cfrom = 2, cto = 2, deleted = ''oo'', author = CHR ''x'', ident = Some 0\<rparr>],
        [- 1]) \<and>
   TrackedChange_map text_ops
      \<lparr>cfrom = 2, cto = 2, deleted = ''oo'', author = CHR ''x'', ident = Some 0\<rparr>
      (StepMap_map [(2, 0, 2)]) True
     = Some \<lparr>cfrom = 2, cto = 4, deleted = ''oo'', author = CHR ''x'', ident = None\<rparr> \<and>
   mapChanges text_ops
      [\<lparr>cfrom = 2, cto = 2, deleted = ''oo'', author = CHR ''x'', ident = Some 0\<rparr>]
      (StepMap_map [(2, 0, 2)]) (Some (CHR ''x'')) (Some [- 1]) ''foo''
     = Some [] \<and>
   ChangeTracking_record text_ops
      [\<lparr>cfrom = 2, cto = 2, deleted = ''oo'', author = CHR ''x'', ident = None\<rparr>]
      (text_edit ''f'' 2 2 ''oo'') (CHR ''x'')
     = Some []"
  by code_simp

section \<open>The start side of the minimizer (C5, C10)\<close>

text \<open>
  Claim C5, as amended. For \<^verbatim>\<open>side == -1\<close>, when the loop of line 39 returns:
  if \<^verbatim>\<open>findDiffStart\<close> finds no divergence, \<^verbatim>\<open>minimizeChange\<close> returns \<^verbatim>\<open>null\<close>;
  if the divergence position is not \<open>0\<close> and is \<^verbatim>\<open>change.from\<close> or is at or after
  \<^verbatim>\<open>change.to\<close>, the change is returned unchanged (it is kept, not dropped).
  Whenever the call returns, the result is \<^verbatim>\<open>null\<close> or the change itself: no change is
  returned with its \<open>from\<close> moved. In the one remaining case, a divergence position
  that is not \<open>0\<close>, is not \<^verbatim>\<open>change.from\<close> and is before \<^verbatim>\<open>change.to\<close>, line 47 is reached
  and the call returns nothing.
\<close>

theorem minimize_start_cases:
  assumes "sameDepth ops change doc = Some d"
  shows "(diffStart ops change doc d = None \<longrightarrow>
            minimizeChange ops change doc (- 1) = Some None) \<and>
         (\<forall>p. diffStart ops change doc d = Some p \<and> p \<noteq> 0 \<and>
               (p = cfrom change \<or> p \<ge> cto change) \<longrightarrow>
            minimizeChange ops change doc (- 1) = Some (Some change)) \<and>
         (\<forall>p. diffStart ops change doc d = Some p \<and> p \<noteq> 0 \<and>
               p \<noteq> cfrom change \<and> p < cto change \<longrightarrow>
            minimizeChange ops change doc (- 1) = None) \<and>
         (\<forall>r. minimizeChange ops change doc (- 1) = Some r \<longrightarrow>
            r = None \<or> r = Some change)"
  using assms by (auto simp: minimizeChange_def split: option.splits if_splits)

text \<open>
  Witness: the text \<open>fxxxoo\<close> with the change \<open>[2, 5)\<close> (three inserted characters; the
  third step of the test \<^verbatim>\<open>add_adjacent\<close>): the reverted text is \<open>foo\<close>, the first
  divergence is at \<open>2\<close>, the start of the change, and the change is returned unchanged.
  The text \<open>aabab\<close> with the change \<open>[1, 4)\<close>: the reverted text is \<open>ab\<close>, the first
  divergence is at \<open>2\<close>, inside the change, and nothing is returned.
\<close>

theorem minimize_start_cases_witness:
  "sameDepth text_ops
      \<lparr>cfrom = 2, cto = 5, deleted = '''', author = CHR ''x'', ident = None\<rparr> ''fxxxoo''
     = Some 1 \<and>
   diffStart text_ops
      \<lparr>cfrom = 2, cto = 5, deleted = '''', author = CHR ''x'', ident = None\<rparr> ''fxxxoo'' 1
     = Some 2 \<and>
   minimizeChange text_ops
      \<lparr>cfrom = 2, cto = 5, deleted = '''', author = CHR ''x'', ident = None\<rparr> ''fxxxoo'' (- 1)
     = Some (Some \<lparr>cfrom = 2, cto = 5, deleted = '''', author = CHR ''x'', ident = None\<rparr>) \<and>
   sameDepth text_ops
      \<lparr>cfrom = 1, cto = 4, deleted = '''', author = CHR ''x'', ident = None\<rparr> ''aabab''
     = Some 1 \<and>
   diffStart text_ops
      \<lparr>cfrom = 1, cto = 4, deleted = '''', author = CHR ''x'', ident = None\<rparr> ''aabab'' 1
     = Some 2 \<and>
   minimizeChange text_ops
      \<lparr>cfrom = 1, cto = 4, deleted = '''', author = CHR ''x'', ident = None\<rparr> ''aabab'' (- 1)
     = None"
proof -
  let ?b = "\<lparr>cfrom = 2, cto = 5, deleted = '''', author = CHR ''x'', ident = None\<rparr>
              :: (string, char) TrackedChange"
  let ?c = "\<lparr>cfrom = 1, cto = 4, deleted = '''', author = CHR ''x'', ident = None\<rparr>
              :: (string, char) TrackedChange"
  have sb: "sameDepth text_ops ?b ''fxxxoo'' = Some 1"
    by (rule text_sameDepth) (simp_all add: text_replace_def)
  have cb: "changedDoc text_ops ?b ''fxxxoo'' = ''foo''"
    by (simp add: changedDoc_def revertTransform_def Transform_replace_def
        new_Transform_def text_ops_def text_replace_def)
  have db: "diffStart text_ops ?b ''fxxxoo'' 1 = Some 2"
    by (simp add: diffStart_def cb) (simp add: text_ops_def)
  have sd: "sameDepth text_ops ?c ''aabab'' = Some 1"
    by (rule text_sameDepth) (simp_all add: text_replace_def)
  have cd: "changedDoc text_ops ?c ''aabab'' = ''ab''"
    by (simp add: changedDoc_def revertTransform_def Transform_replace_def
        new_Transform_def text_ops_def text_replace_def)
  have ds: "diffStart text_ops ?c ''aabab'' 1 = Some 2"
    by (simp add: diffStart_def cd) (simp add: text_ops_def)
  from minimize_start_cases [OF sb] minimize_start_cases [OF sd] db ds sb sd
  show ?thesis by simp
qed

text \<open>
  Counterexample to C5 as stated: the text \<open>foooo\<close> with the change \<open>[2, 4)\<close> (two
  inserted characters \<open>o\<close>). The reverted text is \<open>foo\<close>, the first divergence is at
  \<open>4\<close>, which is at the change's end, and the change is returned, not \<^verbatim>\<open>null\<close>.
\<close>

theorem minimize_start_at_end_counterexample:
  "sameDepth text_ops
      \<lparr>cfrom = 2, cto = 4, deleted = '''', author = CHR ''x'', ident = None\<rparr> ''foooo''
     = Some 1 \<and>
   diffStart text_ops
      \<lparr>cfrom = 2, cto = 4, deleted = '''', author = CHR ''x'', ident = None\<rparr> ''foooo'' 1
     = Some 4 \<and>
   4 \<ge> cto \<lparr>cfrom = 2, cto = 4, deleted = '''', author = CHR ''x'', ident = None\<rparr> \<and>
   minimizeChange text_ops
      \<lparr>cfrom = 2, cto = 4, deleted = '''', author = CHR ''x'', ident = None\<rparr> ''foooo'' (- 1)
     = Some (Some \<lparr>cfrom = 2, cto = 4, deleted = '''', author = CHR ''x'', ident = None\<rparr>)"
proof -
  let ?c = "\<lparr>cfrom = 2, cto = 4, deleted = '''', author = CHR ''x'', ident = None\<rparr>
              :: (string, char) TrackedChange"
  have sd: "sameDepth text_ops ?c ''foooo'' = Some 1"
    by (rule text_sameDepth) (simp_all add: text_replace_def)
  have cd: "changedDoc text_ops ?c ''foooo'' = ''foo''"
    by (simp add: changedDoc_def revertTransform_def Transform_replace_def
        new_Transform_def text_ops_def text_replace_def)
  have ds: "diffStart text_ops ?c ''foooo'' 1 = Some 4"
    by (simp add: diffStart_def cd) (simp add: text_ops_def)
  show ?thesis by (simp add: sd ds minimizeChange_def)
qed

text \<open>
  Claim C10. For \<^verbatim>\<open>side == -1\<close>, when the loop of line 39 returns, a divergence
  position \<open>0\<close> has the same effect as no divergence: \<^verbatim>\<open>minimizeChange\<close> returns
  \<^verbatim>\<open>null\<close>, and \<^verbatim>\<open>mapChanges\<close> leaves the change out of its result.
\<close>

theorem minimize_start_zero_is_null:
  assumes "sameDepth ops change doc = Some d"
    and "diffStart ops change doc d = Some 0 \<or> diffStart ops change doc d = None"
  shows "minimizeChange ops change doc (- 1) = Some None \<and>
         (\<forall>c m auth u rest.
            TrackedChange_map ops c m (auth = Some (author c)) = Some change \<and>
            updated_side u c = Some (- 1) \<longrightarrow>
            mapChanges ops (c # rest) m auth u doc = mapChanges ops rest m auth u doc)"
  using assms by (auto simp: minimizeChange_def)

text \<open>
  Witness: a document whose only block, the paragraph \<open>ab\<close>, was replaced by a heading
  \<open>cd\<close>. The documents differ at position \<open>0\<close>, and the change is dropped.
\<close>

theorem minimize_start_zero_is_null_witness:
  "sameDepth block_ops
      \<lparr>cfrom = 0, cto = 4, deleted = [(''paragraph'', ''ab'')], author = CHR ''x'',
        ident = None\<rparr> [(''heading'', ''cd'')] = Some 0 \<and>
   diffStart block_ops
      \<lparr>cfrom = 0, cto = 4, deleted = [(''paragraph'', ''ab'')], author = CHR ''x'',
        ident = None\<rparr> [(''heading'', ''cd'')] 0 = Some 0 \<and>
   minimizeChange block_ops
      \<lparr>cfrom = 0, cto = 4, deleted = [(''paragraph'', ''ab'')], author = CHR ''x'',
        ident = None\<rparr> [(''heading'', ''cd'')] (- 1) = Some None"
proof -
  let ?c = "\<lparr>cfrom = 0, cto = 4, deleted = [(''paragraph'', ''ab'')], author = CHR ''x'',
        ident = None\<rparr> :: (block list, char) TrackedChange"
  let ?d = "[(''heading'', ''cd'')] :: block list"
  have cd: "changedDoc block_ops ?c ?d = [(''paragraph'', ''ab'')]"
    by (simp add: changedDoc_def revertTransform_def Transform_replace_def
        new_Transform_def block_ops_def block_size_def)
  have sd: "sameDepth block_ops ?c ?d = Some 0"
    by (rule block_sameDepth) (simp_all add: cd blocks_size_def block_size_def)
  have ds: "diffStart block_ops ?c ?d 0 = Some 0"
    by (simp add: diffStart_def cd) (simp add: block_ops_def)
  from minimize_start_zero_is_null [OF sd] ds sd show ?thesis by simp
qed

section \<open>What \<^verbatim>\<open>recordRange\<close> leaves alone (C9)\<close>

lemma absorb_others:
  "filter (\<lambda>c. author c \<noteq> a) (snd (absorb a t rest)) = filter (\<lambda>c. author c \<noteq> a) rest"
  by (induction rest) (auto simp: case_prod_beta)

lemma absorb_fst_own:
  "fst (absorb a t (filter (\<lambda>c. author c = a) rest)) = fst (absorb a t rest)"
  by (induction rest) (auto simp: case_prod_beta)

lemma absorb_snd_own:
  "snd (absorb a t (filter (\<lambda>c. author c = a) rest))
     = filter (\<lambda>c. author c = a) (snd (absorb a t rest))"
  by (induction rest) (auto simp: case_prod_beta)

lemma merge_at_others:
  "filter (\<lambda>c. author c \<noteq> a) (fst (merge_at ops doc f t a k change rest))
     = filter (\<lambda>c. author c \<noteq> a) (change # rest)" if "author change = a"
  using that absorb_others [of a t rest]
  by (simp add: merge_at_def Let_def case_prod_beta)

lemma recordRange_loop_others:
  "filter (\<lambda>c. author c \<noteq> a) (fst (recordRange_loop ops doc f t a k cs))
     = filter (\<lambda>c. author c \<noteq> a) cs"
proof (induction cs)
  case Nil
  show ?case by simp
next
  case (Cons change cs)
  show ?case
  proof (cases "author change \<noteq> a \<or> cto change < f")
    case True
    with Cons show ?thesis by (auto simp: case_prod_beta)
  next
    case False
    then have "author change = a" by simp
    from merge_at_others [OF this, of ops doc f t k cs] False
    show ?thesis by (auto simp: case_prod_beta)
  qed
qed

lemma merge_at_own:
  "author change = a \<Longrightarrow>
   merge_at ops doc f t a k change (filter (\<lambda>c. author c = a) rest)
     = (filter (\<lambda>c. author c = a) (fst (merge_at ops doc f t a k change rest)),
        snd (merge_at ops doc f t a k change rest))"
  using absorb_fst_own [of a t rest] absorb_snd_own [of a t rest]
  by (simp add: merge_at_def Let_def case_prod_beta)

lemma recordRange_loop_own:
  "recordRange_loop ops doc f t a k (filter (\<lambda>c. author c = a) cs)
     = (filter (\<lambda>c. author c = a) (fst (recordRange_loop ops doc f t a k cs)),
        snd (recordRange_loop ops doc f t a k cs))"
proof (induction cs)
  case Nil
  show ?case by simp
next
  case (Cons change cs)
  show ?case
  proof (cases "author change = a")
    case False
    with Cons show ?thesis by (auto simp: case_prod_beta)
  next
    case True
    show ?thesis
    proof (cases "cto change < f")
      case True
      with Cons \<open>author change = a\<close> show ?thesis by (auto simp: case_prod_beta)
    next
      case False
      with merge_at_own [OF \<open>author change = a\<close>, of ops doc f t k cs] \<open>author change = a\<close>
      show ?thesis by (auto simp: case_prod_beta)
    qed
  qed
qed

text \<open>
  Claim C9. \<^verbatim>\<open>recordRange\<close> for one author keeps the changes of all other authors:
  they stay in the change set, in their order, with all their fields. They also have
  no influence on what happens to the author's own changes: the own changes of the
  result, and the sides pushed, are those that \<^verbatim>\<open>recordRange\<close> computes when the other
  authors' changes are taken out of the change set beforehand, so a foreign change
  between two own changes does not stop their merge.
\<close>

theorem recordRange_frame:
  "filter (\<lambda>c. author c \<noteq> a) (fst (recordRange ops cs doc f t a u))
     = filter (\<lambda>c. author c \<noteq> a) cs \<and>
   filter (\<lambda>c. author c = a) (fst (recordRange ops cs doc f t a u))
     = fst (recordRange ops (filter (\<lambda>c. author c = a) cs) doc f t a u) \<and>
   snd (recordRange ops cs doc f t a u)
     = snd (recordRange ops (filter (\<lambda>c. author c = a) cs) doc f t a u)"
  using recordRange_loop_others [of a ops doc f t "length u" cs]
    recordRange_loop_own [of ops doc f t a "length u" cs]
  by (simp add: recordRange_def case_prod_beta)

text \<open>
  Witness: the own changes \<open>[1, 2)\<close> and \<open>[4, 6)\<close> of \<open>x\<close> with a change \<open>[2, 5)\<close> of \<open>y\<close>
  between them; an edit of \<open>[2, 4)\<close> by \<open>x\<close> merges the two own changes into \<open>[1, 6)\<close>
  and leaves the change of \<open>y\<close> as it was.
\<close>

theorem recordRange_frame_witness:
  "fst (recordRange text_ops
      [\<lparr>cfrom = 1, cto = 2, deleted = '''', author = CHR ''x'', ident = None\<rparr>,
       \<lparr>cfrom = 2, cto = 5, deleted = '''', author = CHR ''y'', ident = None\<rparr>,
       \<lparr>cfrom = 4, cto = 6, deleted = '''', author = CHR ''x'', ident = None\<rparr>]
      ''abcdefg'' 2 4 (CHR ''x'') [])
    = [\<lparr>cfrom = 1, cto = 6, deleted = ''bc'', author = CHR ''x'', ident = Some 0\<rparr>,
       \<lparr>cfrom = 2, cto = 5, deleted = '''', author = CHR ''y'', ident = None\<rparr>] \<and>
   filter (\<lambda>c. author c \<noteq> CHR ''x'') (fst (recordRange text_ops
      [\<lparr>cfrom = 1, cto = 2, deleted = '''', author = CHR ''x'', ident = None\<rparr>,
       \<lparr>cfrom = 2, cto = 5, deleted = '''', author = CHR ''y'', ident = None\<rparr>,
       \<lparr>cfrom = 4, cto = 6, deleted = '''', author = CHR ''x'', ident = None\<rparr>]
      ''abcdefg'' 2 4 (CHR ''x'') []))
    = [\<lparr>cfrom = 2, cto = 5, deleted = '''', author = CHR ''y'', ident = None\<rparr>]"
proof -
  have "fst (recordRange text_ops
      [\<lparr>cfrom = 1, cto = 2, deleted = '''', author = CHR ''x'', ident = None\<rparr>,
       \<lparr>cfrom = 2, cto = 5, deleted = '''', author = CHR ''y'', ident = None\<rparr>,
       \<lparr>cfrom = 4, cto = 6, deleted = '''', author = CHR ''x'', ident = None\<rparr>]
      ''abcdefg'' 2 4 (CHR ''x'') [])
    = [\<lparr>cfrom = 1, cto = 6, deleted = ''bc'', author = CHR ''x'', ident = Some 0\<rparr>,
       \<lparr>cfrom = 2, cto = 5, deleted = '''', author = CHR ''y'', ident = None\<rparr>]"
    by code_simp
  with recordRange_frame [of "CHR ''x''" text_ops
      "[\<lparr>cfrom = 1, cto = 2, deleted = '''', author = CHR ''x'', ident = None\<rparr>,
       \<lparr>cfrom = 2, cto = 5, deleted = '''', author = CHR ''y'', ident = None\<rparr>,
       \<lparr>cfrom = 4, cto = 6, deleted = '''', author = CHR ''x'', ident = None\<rparr>]"
      "''abcdefg''" 2 4 "[]"]
  show ?thesis by simp
qed

section \<open>The tests of \<^verbatim>\<open>src/test.js\<close> on one paragraph\<close>

text \<open>
  The scenarios of \<^verbatim>\<open>src/test.js\<close> that stay inside one paragraph, those that are
  commented out there included, with the outcome each test expects. The model with the
  plain-text reference documents computes the expected outcome in every one of them
  but the last.
\<close>

lemma test_simple_add:
  "map_option spans (text_session ''foo'' [(2, 2, ''hi'')] []) = Some [(2, 4, '''')]"
  by code_simp

lemma test_add_twice:
  "map_option spans (text_session ''foo'' [(4, 4, ''ok''), (1, 1, ''hi'')] [])
     = Some [(1, 3, ''''), (6, 8, '''')]"
  by code_simp

lemma test_add_adjacent:
  "map_option spans (text_session ''foo'' [(2, 2, ''x''), (3, 3, ''x''), (2, 2, ''x'')] [])
     = Some [(2, 5, '''')]"
  by code_simp

lemma test_simple_del:
  "map_option spans (text_session ''foobar'' [(2, 4, '''')] []) = Some [(2, 2, ''oo'')]"
  by code_simp

lemma test_del_adjacent:
  "map_option spans (text_session ''foobar'' [(2, 4, ''''), (2, 4, '''')] [])
     = Some [(2, 2, ''ooba'')]"
  by code_simp

lemma test_add_del:
  "map_option spans (text_session ''foobar'' [(4, 4, ''aa''), (2, 4, '''')] [])
     = Some [(2, 4, ''oo'')]"
  by code_simp

lemma test_del_add:
  "map_option spans (text_session ''foobar'' [(2, 4, ''''), (2, 2, ''aa'')] [])
     = Some [(2, 4, ''oo'')]"
  by code_simp

lemma test_join_adds:
  "map_option spans
     (text_session ''foobar'' [(2, 2, ''xy''), (7, 7, ''zz''), (3, 8, '''')] [])
     = Some [(2, 4, ''oob'')]"
  by code_simp

lemma test_join_adds_around:
  "map_option spans
     (text_session ''foobar'' [(2, 2, ''xy''), (7, 7, ''zz''), (1, 9, '''')] [])
     = Some [(1, 1, ''foob'')]"
  by code_simp

lemma test_join_three_adds:
  "map_option spans
     (text_session ''foobar'' [(2, 2, ''xy''), (5, 5, ''zz''), (8, 8, ''qq''), (3, 9, '''')] [])
     = Some [(2, 4, ''oo'')]"
  by code_simp

lemma test_add_del_cancel:
  "map_option spans (text_session ''foo'' [(2, 2, ''ab''), (2, 4, '''')] []) = Some []"
  by code_simp

lemma test_del_add_cancel:
  "map_option spans (text_session ''foo'' [(2, 4, ''''), (2, 2, ''oo'')] []) = Some []"
  by code_simp

lemma test_add_del_cancel_separate:
  "map_option spans
     (text_session ''foo'' [(2, 2, ''a''), (3, 3, ''b''), (3, 4, ''''), (2, 3, '''')] [])
     = Some []"
  by code_simp

lemma test_del_add_cancel_separate:
  "map_option spans
     (text_session ''foo'' [(3, 4, ''''), (2, 3, ''''), (2, 2, ''o''), (3, 3, ''o'')] [])
     = Some []"
  by code_simp

lemma test_del_add_cancel_separate_matching_context:
  "map_option spans
     (text_session ''fababab''
        [(4, 5, ''''), (3, 4, ''''), (2, 3, ''''), (2, 2, ''a''), (3, 3, ''b''), (4, 4, ''a'')]
        [])
     = Some []"
  by code_simp

lemma test_insert_multiple_after_identical:
  "map_option spans (text_session ''abc'' [(2, 2, ''a''), (3, 3, ''a'')] [])
     = Some [(2, 4, '''')]"
  by code_simp

text \<open>
  The scenario \<^verbatim>\<open>insert_identical_delete_in_front\<close>, commented out in \<^verbatim>\<open>src/test.js\<close>:
  its second step needs the change trimmed at its start, reaches line 47, and has no
  outcome.
\<close>

lemma test_insert_identical_delete_in_front:
  "text_session ''abc'' [(4, 4, ''bcbc''), (2, 4, '''')] [] = None"
  by code_simp

section \<open>The loops of \<^verbatim>\<open>recordRange\<close>\<close>

lemma absorb_set: "set (fst (absorb a t rest)) \<union> set (snd (absorb a t rest)) = set rest"
  by (induction rest) (auto simp: case_prod_beta)

lemma absorb_snd_subset: "set (snd (absorb a t rest)) \<subseteq> set rest"
  using absorb_set [of a t rest] by blast

lemma absorb_fst_subset: "set (fst (absorb a t rest)) \<subseteq> set rest"
  using absorb_set [of a t rest] by blast

lemma absorb_fst_author: "x \<in> set (fst (absorb a t rest)) \<Longrightarrow> author x = a \<and> cfrom x \<le> t"
  by (induction rest) (auto simp: case_prod_beta split: if_splits)

lemma absorb_snd_sorted:
  "sorted_wrt R rest \<Longrightarrow> sorted_wrt R (snd (absorb a t rest))"
proof (induction rest)
  case Nil
  show ?case by simp
next
  case (Cons n rest)
  then show ?case using absorb_snd_subset [of a t rest]
    by (auto simp: case_prod_beta)
qed

lemma merge_at_fst:
  "fst (merge_at ops doc f t a k c rest) =
     \<lparr>cfrom = min (cfrom c) f,
      cto = max (cto (last (c # fst (absorb a t rest)))) t,
      deleted = (if f < cfrom c \<or> t > cto c \<or> fst (absorb a t rest) \<noteq> []
                 then applyAndSlice ops doc (c # fst (absorb a t rest)) (min (cfrom c) f)
                        (max (cto (last (c # fst (absorb a t rest)))) t)
                 else deleted c),
      author = author c, ident = Some k\<rparr> # snd (absorb a t rest)"
  by (simp add: merge_at_def Let_def case_prod_beta)

lemma merge_at_snd:
  "snd (merge_at ops doc f t a k c rest) = (if f \<le> cfrom c then - 1 else 1)"
  by (simp add: merge_at_def Let_def case_prod_beta)

section \<open>Merging (C3)\<close>

lemma nonoverlap_chained: "nonoverlap cs \<Longrightarrow> chained cs"
  unfolding nonoverlap_def chained_def
  by (auto elim!: sorted_wrt_mono_rel [rotated] simp: apart_def linked_def)

lemma absorb_touching:
  "chained rest \<Longrightarrow> \<forall>d\<in>set rest. author d = a \<longrightarrow> f \<le> cto d \<Longrightarrow>
   absorb a t rest = (filter (touches a f t) rest, filter (\<lambda>d. \<not> touches a f t d) rest)"
proof (induction rest)
  case Nil
  show ?case by simp
next
  case (Cons n rest)
  from Cons.prems have n: "\<forall>y\<in>set rest. linked n y" and rest: "chained rest"
    and nle: "cfrom n \<le> cto n" and fr: "\<forall>d\<in>set rest. author d = a \<longrightarrow> f \<le> cto d"
    by (simp_all add: chained_def)
  note IH = Cons.IH [OF rest fr]
  show ?case
  proof (cases "author n = a")
    case False
    with IH show ?thesis by (simp add: touches_def)
  next
    case True
    show ?thesis
    proof (cases "t < cfrom n")
      case True
      have "\<not> touches a f t d" if "d \<in> set (n # rest)" for d
        using that n nle True \<open>author n = a\<close> by (fastforce simp: touches_def linked_def)
      then have "filter (touches a f t) (n # rest) = []"
        and "filter (\<lambda>d. \<not> touches a f t d) (n # rest) = n # rest"
        by (auto simp: filter_empty_conv filter_id_conv simp del: filter.simps)
      with True \<open>author n = a\<close> show ?thesis by simp
    next
      case False
      with \<open>author n = a\<close> Cons.prems(2) have "touches a f t n" by (simp add: touches_def)
      with False \<open>author n = a\<close> IH show ?thesis by simp
    qed
  qed
qed

lemma chain_Max:
  "sorted_wrt (\<lambda>x y. cto x \<le> cto y) M \<Longrightarrow> M \<noteq> [] \<Longrightarrow> Max (cto ` set M) = cto (last M)"
proof (induction M)
  case Nil
  then show ?case by simp
next
  case (Cons x M)
  show ?case
  proof (cases "M = []")
    case True
    then show ?thesis by simp
  next
    case False
    with Cons have "Max (cto ` set M) = cto (last M)" by simp
    moreover from False Cons.prems have "cto x \<le> cto (last M)" by simp
    ultimately show ?thesis using False by (simp add: max_def)
  qed
qed

lemma chain_Min:
  "\<forall>y\<in>set M. cfrom c \<le> cfrom y \<Longrightarrow> Min (cfrom ` set (c # M)) = cfrom c"
  by (simp only: list.set image_insert) (rule Min_insert2, auto)

lemma own_chain:
  assumes "chained cs" and "\<forall>c\<in>set cs. author c = a"
  shows "sorted_wrt (\<lambda>x y. cto x \<le> cto y) cs \<and> sorted_wrt (\<lambda>x y. cfrom x \<le> cfrom y) cs"
proof -
  from assms have s: "sorted_wrt linked cs" and le: "\<forall>c\<in>set cs. cfrom c \<le> cto c"
    by (simp_all add: chained_def)
  have step: "cto x \<le> cfrom y \<and> cfrom x \<le> cto x \<and> cfrom y \<le> cto y"
    if "x \<in> set cs" "y \<in> set cs" "linked x y" for x y
    using that assms(2) le by (simp add: linked_def)
  from s have "sorted_wrt (\<lambda>x y. cto x \<le> cto y) cs"
  proof (rule sorted_wrt_mono_rel [rotated])
    fix x y assume "x \<in> set cs" "y \<in> set cs" "linked x y"
    from step [OF this] show "cto x \<le> cto y" by simp
  qed
  moreover from s have "sorted_wrt (\<lambda>x y. cfrom x \<le> cfrom y) cs"
  proof (rule sorted_wrt_mono_rel [rotated])
    fix x y assume "x \<in> set cs" "y \<in> set cs" "linked x y"
    from step [OF this] show "cfrom x \<le> cfrom y" by simp
  qed
  ultimately show ?thesis by simp
qed

lemma recordRange_loop_merges:
  shows "chained cs \<Longrightarrow> filter (touches a f t) cs \<noteq> [] \<Longrightarrow>
   recordRange_loop ops doc f t a k cs =
     (takeWhile (\<lambda>c. \<not> touches a f t c) cs @
        \<lparr>cfrom = Min (insert f (cfrom ` set (filter (touches a f t) cs))),
          cto = Max (insert t (cto ` set (filter (touches a f t) cs))),
          deleted =
            (if f < cfrom (hd (filter (touches a f t) cs)) \<or>
                cto (hd (filter (touches a f t) cs)) < t \<or>
                1 < length (filter (touches a f t) cs)
             then applyAndSlice ops doc (filter (touches a f t) cs)
                    (Min (insert f (cfrom ` set (filter (touches a f t) cs))))
                    (Max (insert t (cto ` set (filter (touches a f t) cs))))
             else deleted (hd (filter (touches a f t) cs))),
          author = a, ident = Some k\<rparr>
        # filter (\<lambda>c. \<not> touches a f t c) (dropWhile (\<lambda>c. \<not> touches a f t c) cs),
      [if f \<le> cfrom (hd (filter (touches a f t) cs)) then - 1 else 1])"
proof (induction cs)
  case Nil
  then show ?case by simp
next
  case (Cons c cs)
  from Cons.prems have c: "\<forall>y\<in>set cs. linked c y" and cs: "chained cs"
    and cle: "cfrom c \<le> cto c"
    by (simp_all add: chained_def)
  show ?case
  proof (cases "author c \<noteq> a \<or> cto c < f")
    case True
    then have nt: "\<not> touches a f t c" by (auto simp: touches_def)
    with Cons.prems have "filter (touches a f t) cs \<noteq> []" by simp
    from Cons.IH [OF cs this] nt True show ?thesis by simp
  next
    case False
    then have ac: "author c = a" and cf: "f \<le> cto c" by auto
    have later: "cto c \<le> cfrom d" if "d \<in> set cs" "author d = a" for d
      using that c ac by (auto simp: linked_def)
    show ?thesis
    proof (cases "cfrom c > t")
      case True
      have "\<not> touches a f t d" if "d \<in> set (c # cs)" for d
        using that later cle True by (fastforce simp: touches_def)
      then have "filter (touches a f t) (c # cs) = []"
        by (auto simp: filter_empty_conv simp del: filter.simps)
      with Cons.prems show ?thesis by simp
    next
      case nb: False
      with ac cf have tc: "touches a f t c" by (simp add: touches_def)
      let ?M = "filter (touches a f t) cs"
      have "\<forall>d\<in>set cs. author d = a \<longrightarrow> f \<le> cto d"
        using later cf cs by (fastforce simp: chained_def)
      from absorb_touching [OF cs this]
      have ab: "absorb a t cs = (?M, filter (\<lambda>d. \<not> touches a f t d) cs)" .
      have "chained (c # ?M)"
        using Cons.prems(1) by (auto simp: chained_def sorted_wrt_filter)
      moreover have "\<forall>x\<in>set (c # ?M). author x = a"
        using ac by (auto simp: touches_def)
      ultimately have ch: "sorted_wrt (\<lambda>x y. cto x \<le> cto y) (c # ?M)"
        "sorted_wrt (\<lambda>x y. cfrom x \<le> cfrom y) (c # ?M)"
        using own_chain [of "c # ?M" a] by simp_all
      from chain_Max [OF ch(1)] have mx: "Max (cto ` set (c # ?M)) = cto (last (c # ?M))"
        by simp
      from ch(2) have mn: "Min (cfrom ` set (c # ?M)) = cfrom c"
        by (intro chain_Min) simp
      have newTo: "Max (insert t (cto ` set (c # ?M))) = max (cto (last (c # ?M))) t"
      proof -
        have "Max (insert t (cto ` set (c # ?M))) = max t (Max (cto ` set (c # ?M)))"
          by (rule Max_insert) simp_all
        with mx show ?thesis by (simp only: max.commute)
      qed
      have newFrom: "Min (insert f (cfrom ` set (c # ?M))) = min (cfrom c) f"
      proof -
        have "Min (insert f (cfrom ` set (c # ?M))) = min f (Min (cfrom ` set (c # ?M)))"
          by (rule Min_insert) simp_all
        with mn show ?thesis by (simp only: min.commute)
      qed
      have cond: "(f < cfrom c \<or> t > cto c \<or> ?M \<noteq> []) \<longleftrightarrow>
                  (f < cfrom c \<or> cto c < t \<or> 1 < length (c # ?M))"
        by (cases ?M) auto
      have loop: "recordRange_loop ops doc f t a k (c # cs) =
          (fst (merge_at ops doc f t a k c cs), [snd (merge_at ops doc f t a k c cs)])"
        using False nb by (simp add: case_prod_beta)
      have F: "filter (touches a f t) (c # cs) = c # ?M" using tc by simp
      have TW: "takeWhile (\<lambda>c. \<not> touches a f t c) (c # cs) = []" using tc by simp
      have DW: "filter (\<lambda>c. \<not> touches a f t c)
                  (dropWhile (\<lambda>c. \<not> touches a f t c) (c # cs))
                = filter (\<lambda>c. \<not> touches a f t c) cs" using tc by simp
      show ?thesis
        apply (simp only: loop F TW DW append_Nil newFrom newTo list.sel)
        apply (simp add: merge_at_fst merge_at_snd ab ac)
        done
    qed
  qed
qed

text \<open>
  Claim C3, as amended. Let the change set be chained (the changes of each author are
  in order and do not overlap; they may touch) and let \<open>M\<close>, the changes of the author
  that intersect or touch \<open>[from, to)\<close>, be non-empty. Then \<^verbatim>\<open>recordRange\<close> replaces all
  of \<open>M\<close> by one change, at the place of the first of them; its start \<open>newFrom\<close> is the
  minimum of \<open>from\<close> and the starts of \<open>M\<close>, its end \<open>newTo\<close> the maximum of \<open>to\<close> and the
  ends of \<open>M\<close>. When the span extends beyond the first change of \<open>M\<close> or \<open>M\<close> has more
  than one change, its deleted content is recomputed: in a transform on \<open>doc\<close> the
  changes of \<open>M\<close> are reverted from the last to the first, each by replacing its range
  with its deleted content, and the resulting document is sliced from \<open>newFrom\<close> to the
  position that the transform's mapping gives for \<open>newTo\<close>. (The end of the slice is
  the mapped position, not \<open>newTo\<close> itself.) Otherwise the deleted content of the only
  change of \<open>M\<close> is kept. The new change is pushed onto \<^verbatim>\<open>updatedChanges\<close> with side \<open>-1\<close>
  when \<open>from\<close> is at or before the start of the first change of \<open>M\<close>, and \<open>1\<close> otherwise.
\<close>

theorem recordRange_merges:
  assumes "chained cs" and "M = filter (touches a f t) cs" and "M \<noteq> []"
  shows "recordRange ops cs doc f t a u =
     (takeWhile (\<lambda>c. \<not> touches a f t c) cs @
        \<lparr>cfrom = Min (insert f (cfrom ` set M)),
          cto = Max (insert t (cto ` set M)),
          deleted =
            (if f < cfrom (hd M) \<or> cto (hd M) < t \<or> 1 < length M
             then doc_slice ops
                    (tr_doc (foldr (\<lambda>c tr. Transform_replace ops tr (cfrom c) (cto c)
                               (deleted c)) M (new_Transform doc)))
                    (Min (insert f (cfrom ` set M)))
                    (Mapping_map
                       (tr_maps (foldr (\<lambda>c tr. Transform_replace ops tr (cfrom c) (cto c)
                                  (deleted c)) M (new_Transform doc)))
                       (Max (insert t (cto ` set M))) 1)
             else deleted (hd M)),
          author = a, ident = Some (length u)\<rparr>
        # filter (\<lambda>c. \<not> touches a f t c) (dropWhile (\<lambda>c. \<not> touches a f t c) cs),
      u @ [if f \<le> cfrom (hd M) then - 1 else 1])"
  using recordRange_loop_merges [OF assms(1), of a f t ops doc "length u"] assms(2,3)
  by (simp add: recordRange_def applyAndSlice_def Let_def foldl_conv_foldr)

text \<open>
  Witness: the text \<open>abcdefgh\<close> with changes \<open>[1, 2)\<close>, \<open>[4, 6)\<close>, \<open>[7, 8)\<close> of \<open>x\<close> and
  \<open>[2, 5)\<close> of \<open>y\<close>, all insertions; an edit of \<open>[2, 4)\<close> by \<open>x\<close> merges \<open>[1, 2)\<close> and
  \<open>[4, 6)\<close> into \<open>[1, 6)\<close>. Reverting the two changes gives \<open>bcfgh\<close>, the position \<open>6\<close>
  is mapped to \<open>3\<close>, and the deleted content is \<open>bc\<close>, the text that the edit replaces.
\<close>

theorem recordRange_merges_witness:
  "chained
     [\<lparr>cfrom = 1, cto = 2, deleted = '''', author = CHR ''x'', ident = None\<rparr>,
      \<lparr>cfrom = 2, cto = 5, deleted = '''', author = CHR ''y'', ident = None\<rparr>,
      \<lparr>cfrom = 4, cto = 6, deleted = '''', author = CHR ''x'', ident = None\<rparr>,
      \<lparr>cfrom = 7, cto = 8, deleted = '''', author = CHR ''x'', ident = None\<rparr>
        :: (string, char) TrackedChange] \<and>
   recordRange text_ops
     [\<lparr>cfrom = 1, cto = 2, deleted = '''', author = CHR ''x'', ident = None\<rparr>,
      \<lparr>cfrom = 2, cto = 5, deleted = '''', author = CHR ''y'', ident = None\<rparr>,
      \<lparr>cfrom = 4, cto = 6, deleted = '''', author = CHR ''x'', ident = None\<rparr>,
      \<lparr>cfrom = 7, cto = 8, deleted = '''', author = CHR ''x'', ident = None\<rparr>]
     ''abcdefgh'' 2 4 (CHR ''x'') []
   = ([\<lparr>cfrom = 1, cto = 6, deleted = ''bc'', author = CHR ''x'', ident = Some 0\<rparr>,
       \<lparr>cfrom = 2, cto = 5, deleted = '''', author = CHR ''y'', ident = None\<rparr>,
       \<lparr>cfrom = 7, cto = 8, deleted = '''', author = CHR ''x'', ident = None\<rparr>], [1])"
proof -
  let ?cs = "[\<lparr>cfrom = 1, cto = 2, deleted = '''', author = CHR ''x'', ident = None\<rparr>,
      \<lparr>cfrom = 2, cto = 5, deleted = '''', author = CHR ''y'', ident = None\<rparr>,
      \<lparr>cfrom = 4, cto = 6, deleted = '''', author = CHR ''x'', ident = None\<rparr>,
      \<lparr>cfrom = 7, cto = 8, deleted = '''', author = CHR ''x'', ident = None\<rparr>]
        :: (string, char) TrackedChange list"
  let ?M = "[\<lparr>cfrom = 1, cto = 2, deleted = '''', author = CHR ''x'', ident = None\<rparr>,
      \<lparr>cfrom = 4, cto = 6, deleted = '''', author = CHR ''x'', ident = None\<rparr>]
        :: (string, char) TrackedChange list"
  let ?tr = "foldr (\<lambda>c tr. Transform_replace text_ops tr (cfrom c) (cto c) (deleted c)) ?M
               (new_Transform ''abcdefgh'')"
  have n: "chained ?cs" by (simp add: chained_def linked_def)
  have M: "?M = filter (touches (CHR ''x'') 2 4) ?cs" by (simp add: touches_def)
  have d: "tr_doc ?tr = ''bcfgh''" by code_simp
  have p: "Mapping_map (tr_maps ?tr) 6 1 = 3" by code_simp
  have s: "doc_slice text_ops ''bcfgh'' 1 3 = ''bc''" by code_simp
  from recordRange_merges [OF n M, of text_ops "''abcdefgh''" "[]"]
  have "recordRange text_ops ?cs ''abcdefgh'' 2 4 (CHR ''x'') [] =
      ([\<lparr>cfrom = 1, cto = 6,
          deleted = doc_slice text_ops (tr_doc ?tr) 1 (Mapping_map (tr_maps ?tr) 6 1),
          author = CHR ''x'', ident = Some 0\<rparr>,
        \<lparr>cfrom = 2, cto = 5, deleted = '''', author = CHR ''y'', ident = None\<rparr>,
        \<lparr>cfrom = 7, cto = 8, deleted = '''', author = CHR ''x'', ident = None\<rparr>], [1])"
    by (simp add: touches_def)
  with n show ?thesis by (simp only: d p s)
qed

text \<open>
  Counterexample to C3 as stated: the text \<open>adefg\<close>, in which \<open>x\<close> has deleted \<open>bc\<close> at
  \<open>2\<close>; \<open>x\<close> edits \<open>[2, 3)\<close>. The change is extended to \<open>[2, 3)\<close>. Reverting it gives
  \<open>abcdefg\<close>, whose slice \<open>[2, 3)\<close> is \<open>b\<close>; the deleted content recorded is \<open>bcd\<close>, the
  slice from \<open>2\<close> to \<open>5\<close>, the position to which \<open>3\<close> is mapped.
\<close>

theorem merged_content_ends_at_mapped_position_counterexample:
  "recordRange text_ops
     [\<lparr>cfrom = 2, cto = 2, deleted = ''bc'', author = CHR ''x'', ident = None\<rparr>]
     ''adefg'' 2 3 (CHR ''x'') []
   = ([\<lparr>cfrom = 2, cto = 3, deleted = ''bcd'', author = CHR ''x'', ident = Some 0\<rparr>],
      [- 1]) \<and>
   tr_doc (Transform_replace text_ops (new_Transform ''adefg'') 2 2 ''bc'') = ''abcdefg'' \<and>
   Mapping_map (tr_maps (Transform_replace text_ops (new_Transform ''adefg'') 2 2 ''bc'')) 3 1
     = 5 \<and>
   doc_slice text_ops ''abcdefg'' 2 3 = ''b'' \<and>
   doc_slice text_ops ''abcdefg'' 2 5 = ''bcd''"
  by code_simp

section \<open>Spans of length zero (C8)\<close>

lemma mapChanges_append:
  "mapChanges ops (xs @ ys) m auth u d =
     (case mapChanges ops xs m auth u d of
        None \<Rightarrow> None
      | Some r1 \<Rightarrow> map_option ((@) r1) (mapChanges ops ys m auth u d))"
proof (induction xs)
  case Nil
  show ?case by (cases "mapChanges ops ys m auth u d") simp_all
next
  case (Cons x xs)
  then show ?case
    by (cases "mapChanges ops xs m auth u d"; cases "mapChanges ops ys m auth u d")
       (auto split: option.splits)
qed

lemma recordRange_loop_inserts:
  "\<forall>c\<in>set cs. \<not> touches a f t c \<Longrightarrow>
   recordRange_loop ops doc f t a k cs =
     (takeWhile (\<lambda>c. author c \<noteq> a \<or> cto c < f) cs @
        \<lparr>cfrom = f, cto = t, deleted = doc_slice ops doc f t, author = a, ident = None\<rparr>
        # dropWhile (\<lambda>c. author c \<noteq> a \<or> cto c < f) cs, [])"
  by (induction cs) (auto simp: touches_def)

text \<open>
  Claim C8, as amended. Let \<open>from = to\<close>, let no change of the author touch the span and
  let \<^verbatim>\<open>doc.slice(from, to)\<close> be empty. Then \<^verbatim>\<open>recordRange\<close> does record a change: it
  inserts the change \<open>[from, from)\<close> with empty deleted content, before the author's
  first change that ends at or after \<open>from\<close>. The \<^verbatim>\<open>mapChanges\<close> of the step removes it
  again when the step's map sends \<open>from\<close> to one position under both biases (or to a
  reversed pair): the change set is then what \<^verbatim>\<open>mapChanges\<close> gives without the call
  of \<^verbatim>\<open>recordRange\<close>. When the map sends \<open>from\<close> with bias \<open>-1\<close> strictly before \<open>from\<close>
  with bias \<open>1\<close>, as the map of an insertion does, the change stays in the change set
  as the annotation of the inserted range.
\<close>

theorem recordRange_empty_span:
  assumes "\<forall>c\<in>set cs. \<not> touches a f f c"
    and "slice_size ops (doc_slice ops doc f f) = 0"
  shows "recordRange ops cs doc f f a u =
           (takeWhile (\<lambda>c. author c \<noteq> a \<or> cto c < f) cs @
              \<lparr>cfrom = f, cto = f, deleted = doc_slice ops doc f f, author = a,
                ident = None\<rparr>
              # dropWhile (\<lambda>c. author c \<noteq> a \<or> cto c < f) cs, u) \<and>
         (m f 1 \<le> m f (- 1) \<longrightarrow>
            mapChanges ops (fst (recordRange ops cs doc f f a u)) m (Some a) (Some u) d
              = mapChanges ops cs m (Some a) (Some u) d) \<and>
         (m f (- 1) < m f 1 \<longrightarrow>
            (\<forall>r. mapChanges ops (fst (recordRange ops cs doc f f a u)) m (Some a) (Some u) d
                   = Some r \<longrightarrow>
                 \<lparr>cfrom = m f (- 1), cto = m f 1, deleted = doc_slice ops doc f f,
                   author = a, ident = None\<rparr> \<in> set r))"
proof -
  let ?P = "\<lambda>c. author c \<noteq> a \<or> cto c < f"
  let ?new = "\<lparr>cfrom = f, cto = f, deleted = doc_slice ops doc f f, author = a,
                ident = None\<rparr>"
  have rr: "recordRange ops cs doc f f a u = (takeWhile ?P cs @ ?new # dropWhile ?P cs, u)"
    using recordRange_loop_inserts [OF assms(1), of ops doc "length u"]
    by (simp add: recordRange_def)
  have split: "mapChanges ops cs m (Some a) (Some u) d =
      (case mapChanges ops (takeWhile ?P cs) m (Some a) (Some u) d of
         None \<Rightarrow> None
       | Some r1 \<Rightarrow> map_option ((@) r1) (mapChanges ops (dropWhile ?P cs) m (Some a) (Some u) d))"
    using mapChanges_append [of ops "takeWhile ?P cs" "dropWhile ?P cs"] by simp
  have drop: "mapChanges ops (?new # ys) m (Some a) (Some u) d = mapChanges ops ys m (Some a) (Some u) d"
    if "m f 1 \<le> m f (- 1)" for ys
    using that assms(2) by (auto simp: TrackedChange_map_def Let_def)
  have keep: "mapChanges ops (?new # ys) m (Some a) (Some u) d =
      map_option ((#) \<lparr>cfrom = m f (- 1), cto = m f 1, deleted = doc_slice ops doc f f,
                   author = a, ident = None\<rparr>) (mapChanges ops ys m (Some a) (Some u) d)"
    if "m f (- 1) < m f 1" for ys
    using that by (simp add: TrackedChange_map_def Let_def updated_side_def)
  have c2: "mapChanges ops (fst (recordRange ops cs doc f f a u)) m (Some a) (Some u) d
              = mapChanges ops cs m (Some a) (Some u) d" if "m f 1 \<le> m f (- 1)"
    unfolding rr fst_conv mapChanges_append split drop [OF that] ..
  have c3: "\<lparr>cfrom = m f (- 1), cto = m f 1, deleted = doc_slice ops doc f f,
                   author = a, ident = None\<rparr> \<in> set r"
    if "m f (- 1) < m f 1"
      "mapChanges ops (fst (recordRange ops cs doc f f a u)) m (Some a) (Some u) d = Some r"
    for r
    using that(2) unfolding rr fst_conv mapChanges_append keep [OF that(1)]
    by (auto split: option.splits)
  from rr c2 c3 show ?thesis by blast
qed

text \<open>
  Witness: the text \<open>foobar\<close> with a change \<open>[5, 6)\<close> and a step at \<open>2\<close> that replaces
  nothing by nothing.
\<close>

theorem recordRange_empty_span_witness:
  "\<not> touches (CHR ''x'') 2 2
      (\<lparr>cfrom = 5, cto = 6, deleted = '''', author = CHR ''x'', ident = None\<rparr>
         :: (string, char) TrackedChange) \<and>
   slice_size text_ops (doc_slice text_ops ''foobar'' 2 2) = 0 \<and>
   StepMap_map [(2, 0, 0)] 2 1 \<le> StepMap_map [(2, 0, 0)] 2 (- 1) \<and>
   mapChanges text_ops
     (fst (recordRange text_ops
        [\<lparr>cfrom = 5, cto = 6, deleted = '''', author = CHR ''x'', ident = None\<rparr>]
        ''foobar'' 2 2 (CHR ''x'') []))
     (StepMap_map [(2, 0, 0)]) (Some (CHR ''x'')) (Some []) ''foobar''
   = Some [\<lparr>cfrom = 5, cto = 6, deleted = '''', author = CHR ''x'', ident = None\<rparr>]"
proof -
  let ?cs = "[\<lparr>cfrom = 5, cto = 6, deleted = '''', author = CHR ''x'', ident = None\<rparr>
                 :: (string, char) TrackedChange]"
  have h1: "\<forall>c\<in>set ?cs. \<not> touches (CHR ''x'') 2 2 c" by (simp add: touches_def)
  have h2: "slice_size text_ops (doc_slice text_ops ''foobar'' 2 2) = 0" by code_simp
  have h3: "StepMap_map [(2, 0, 0)] 2 1 \<le> StepMap_map [(2, 0, 0)] 2 (- 1)" by code_simp
  have e: "mapChanges text_ops ?cs (StepMap_map [(2, 0, 0)]) (Some (CHR ''x'')) (Some [])
             ''foobar'' = Some ?cs"
    by code_simp
  from recordRange_empty_span [OF h1 h2, of "[]" "StepMap_map [(2, 0, 0)]" "''foobar''"] h3
  have "mapChanges text_ops (fst (recordRange text_ops ?cs ''foobar'' 2 2 (CHR ''x'') []))
     (StepMap_map [(2, 0, 0)]) (Some (CHR ''x'')) (Some []) ''foobar''
     = mapChanges text_ops ?cs (StepMap_map [(2, 0, 0)]) (Some (CHR ''x'')) (Some [])
         ''foobar''"
    by blast
  also note e
  finally show ?thesis using h1 h2 h3 by simp
qed

text \<open>
  Counterexample to C8 as stated: the insertion of \<open>hi\<close> at \<open>2\<close> into \<open>foo\<close> with an empty
  change set. The recorded span has \<open>from = to = 2\<close>, touches no change and has an
  empty slice; \<^verbatim>\<open>recordRange\<close> records the change \<open>[2, 2)\<close>, and after the step the change
  set holds the annotation \<open>[2, 4)\<close> (the test \<^verbatim>\<open>simple_add\<close> of \<^verbatim>\<open>src/test.js\<close>).
\<close>

theorem insertion_is_recorded_counterexample:
  "slice_size text_ops (doc_slice text_ops ''foo'' 2 2) = 0 \<and>
   recordRange text_ops [] ''foo'' 2 2 (CHR ''x'') []
     = ([\<lparr>cfrom = 2, cto = 2, deleted = '''', author = CHR ''x'', ident = None\<rparr>], []) \<and>
   ChangeTracking_record text_ops [] (text_edit ''foo'' 2 2 ''hi'') (CHR ''x'')
     = Some [\<lparr>cfrom = 2, cto = 4, deleted = '''', author = CHR ''x'', ident = None\<rparr>]"
  by code_simp

section \<open>Insertion followed by its deletion (C6)\<close>

text \<open>
  Claim C6. Starting from the empty change set, an author inserts content of size
  \<open>n > 0\<close> at \<open>p\<close> and then deletes \<open>[p, p + n)\<close>. The position maps are those of the
  two steps: the first has the range \<open>(p, 0, n)\<close> and sends \<open>p\<close> to \<open>p\<close> with bias \<open>-1\<close>
  and to \<open>p + n\<close> with bias \<open>1\<close>; the second has the range \<open>(p, n, 0)\<close> and sends \<open>p\<close>
  with bias \<open>-1\<close> and \<open>p + n\<close> with bias \<open>1\<close> to \<open>p\<close>. \<^verbatim>\<open>doc.slice(p, p)\<close> is empty. Then
  after the insertion the change set is the one annotation \<open>[p, p + n)\<close>, and after the
  deletion it is empty, whether the two steps come in two transactions or in one.
\<close>

theorem insert_then_delete_cancels:
  assumes "0 < n"
    and "slice_size ops (doc_slice ops doc0 p p) = 0"
    and "ranges mi = [(p, 0, n)]" and "map_pos mi p (- 1) = p" and "map_pos mi p 1 = p + n"
    and "ranges md = [(p, n, 0)]" and "map_pos md p (- 1) = p" and "map_pos md (p + n) 1 = p"
  shows "ChangeTracking_record ops [] \<lparr>steps = [(doc0, mi)], final_doc = doc1\<rparr> a
           = Some [\<lparr>cfrom = p, cto = p + n, deleted = doc_slice ops doc0 p p, author = a,
                     ident = None\<rparr>] \<and>
         ChangeTracking_record ops
             [\<lparr>cfrom = p, cto = p + n, deleted = doc_slice ops doc0 p p, author = a,
               ident = None\<rparr>]
             \<lparr>steps = [(doc1, md)], final_doc = doc2\<rparr> a
           = Some [] \<and>
         ChangeTracking_record ops [] \<lparr>steps = [(doc0, mi), (doc1, md)], final_doc = doc2\<rparr> a
           = Some []"
  using assms
  by (simp add: ChangeTracking_record_def recordRange_def merge_at_def TrackedChange_map_def
      updated_side_def)

text \<open>
  Witness: the text \<open>foo\<close>, insertion of \<open>ab\<close> at \<open>2\<close>, deletion of \<open>[2, 4)\<close> (the test
  \<^verbatim>\<open>add_del_cancel\<close> of \<^verbatim>\<open>src/test.js\<close>).
\<close>

theorem insert_then_delete_cancels_witness:
  "ChangeTracking_record text_ops [] (text_edit ''foo'' 2 2 ''ab'') (CHR ''x'')
     = Some [\<lparr>cfrom = 2, cto = 4, deleted = '''', author = CHR ''x'', ident = None\<rparr>] \<and>
   ChangeTracking_record text_ops
       [\<lparr>cfrom = 2, cto = 4, deleted = '''', author = CHR ''x'', ident = None\<rparr>]
       (text_edit ''faboo'' 2 4 '''') (CHR ''x'')
     = Some []"
proof -
  have h: "slice_size text_ops (doc_slice text_ops ''foo'' 2 2) = 0" by code_simp
  have s: "doc_slice text_ops ''foo'' 2 2 = ''''" by code_simp
  from insert_then_delete_cancels [of 2 text_ops "''foo''" 2 "new_StepMap [(2, 0, 2)]"
      "new_StepMap [(2, 2, 0)]" "''faboo''" "CHR ''x''" "''foo''", OF _ h]
  show ?thesis
    by (simp add: new_StepMap_def StepMap_map_def text_edit_def text_replace_def s)
qed

section \<open>What \<^verbatim>\<open>mapChanges\<close> returns\<close>

lemma mapChanges_derived:
  "mapChanges ops cs m auth u d = Some r \<Longrightarrow> y \<in> set r \<Longrightarrow>
   \<exists>c\<in>set cs. derived ops m auth u d c y"
proof (induction cs arbitrary: r)
  case Nil
  then show ?case by simp
next
  case (Cons c cs)
  show ?case
  proof (cases "TrackedChange_map ops c m (auth = Some (author c))")
    case None
    with Cons show ?thesis by auto
  next
    case (Some mapped)
    show ?thesis
    proof (cases "updated_side u c")
      case None
      with Some Cons.prems obtain r' where r': "mapChanges ops cs m auth u d = Some r'"
        and r: "r = mapped # r'" by auto
      from Cons.prems(2) r have "y = mapped \<or> y \<in> set r'" by auto
      then show ?thesis
      proof
        assume "y = mapped"
        with Some have "derived ops m auth u d c y" by (auto simp: derived_def)
        then show ?thesis by auto
      next
        assume "y \<in> set r'"
        with Cons.IH [OF r'] show ?thesis by auto
      qed
    next
      case (Some side)
      note side = this
      show ?thesis
      proof (cases "minimizeChange ops mapped d side")
        case None
        with \<open>TrackedChange_map ops c m (auth = Some (author c)) = Some mapped\<close> side Cons.prems
        show ?thesis by simp
      next
        case (Some res)
        note res = this
        show ?thesis
        proof (cases res)
          case None
          with \<open>TrackedChange_map ops c m (auth = Some (author c)) = Some mapped\<close> side res
            Cons.prems Cons.IH
          show ?thesis by auto
        next
          case (Some mapped')
          with \<open>TrackedChange_map ops c m (auth = Some (author c)) = Some mapped\<close> side res
            Cons.prems
          obtain r' where r': "mapChanges ops cs m auth u d = Some r'"
            and r: "r = mapped' # r'" by auto
          from Cons.prems(2) r have "y = mapped' \<or> y \<in> set r'" by auto
          then show ?thesis
          proof
            assume "y = mapped'"
            with \<open>TrackedChange_map ops c m (auth = Some (author c)) = Some mapped\<close> side res Some
            have "derived ops m auth u d c y" by (auto simp: derived_def)
            then show ?thesis by auto
          next
            assume "y \<in> set r'"
            with Cons.IH [OF r'] show ?thesis by auto
          qed
        qed
      qed
    qed
  qed
qed

lemma mapChanges_Cons:
  "mapChanges ops (c # cs) m auth u d = Some r \<Longrightarrow>
   \<exists>r'. mapChanges ops cs m auth u d = Some r' \<and>
        (r = r' \<or> (\<exists>y. r = y # r' \<and> derived ops m auth u d c y))"
  by (auto simp: derived_def split: option.splits)

lemma mapChanges_sorted_wrt:
  assumes "\<And>c c' y y'. c \<in> set cs \<Longrightarrow> c' \<in> set cs \<Longrightarrow> Q c c' \<Longrightarrow>
             derived ops m auth u d c y \<Longrightarrow> derived ops m auth u d c' y' \<Longrightarrow> R y y'"
  shows "sorted_wrt Q cs \<Longrightarrow> mapChanges ops cs m auth u d = Some r \<Longrightarrow> sorted_wrt R r"
  using assms
proof (induction cs arbitrary: r)
  case Nil
  then show ?case by simp
next
  case (Cons c cs)
  from mapChanges_Cons [OF Cons.prems(2)] obtain r' where
    r': "mapChanges ops cs m auth u d = Some r'" and
    r: "r = r' \<or> (\<exists>y. r = y # r' \<and> derived ops m auth u d c y)" by blast
  from Cons.prems(1) have Q: "\<forall>c'\<in>set cs. Q c c'" and s: "sorted_wrt Q cs" by simp_all
  have IH: "sorted_wrt R r'"
    by (rule Cons.IH [OF s r']) (rule Cons.prems(3), auto)
  from r show ?case
  proof
    assume "r = r'"
    with IH show ?thesis by simp
  next
    assume "\<exists>y. r = y # r' \<and> derived ops m auth u d c y"
    then obtain y where y: "r = y # r'" "derived ops m auth u d c y" by blast
    have "R y z" if "z \<in> set r'" for z
    proof -
      from mapChanges_derived [OF r' that] obtain c' where
        "c' \<in> set cs" "derived ops m auth u d c' z" by blast
      with Q y(2) Cons.prems(3) [of c c' y z] show ?thesis by auto
    qed
    with IH y(1) show ?thesis by simp
  qed
qed

lemma TrackedChange_map_Some:
  "TrackedChange_map ops c m inc = Some mapped \<Longrightarrow>
   cfrom mapped = m (cfrom c) (if inc then - 1 else 1) \<and>
   cto mapped = m (cto c) (if inc then 1 else - 1) \<and>
   cfrom mapped \<le> cto mapped \<and> author mapped = author c \<and> deleted mapped = deleted c"
  by (auto simp: TrackedChange_map_def Let_def split: if_splits)

lemma minimizeChange_Some:
  "minimizeChange ops c d side = Some (Some y) \<Longrightarrow> cfrom c \<le> cto c \<Longrightarrow>
   author y = author c \<and> cfrom y \<le> cto y \<and> (side \<noteq> - 1 \<longrightarrow> cfrom y = cfrom c) \<and>
   (side = - 1 \<longrightarrow> cto y = cto c)"
  by (auto simp: minimizeChange_def split: option.splits if_splits)

lemma derived_basic:
  "derived ops m auth u d c y \<Longrightarrow> author y = author c \<and> cfrom y \<le> cto y"
  using TrackedChange_map_Some minimizeChange_Some
  by (fastforce simp: derived_def)

section \<open>Changes of one author stay apart (C2)\<close>

lemma absorb_snd_after:
  "nonoverlap rest \<Longrightarrow> d \<in> set (snd (absorb a t rest)) \<Longrightarrow> author d = a \<Longrightarrow> t < cfrom d"
proof (induction rest)
  case Nil
  then show ?case by simp
next
  case (Cons n rest)
  then show ?case
    by (fastforce simp: case_prod_beta nonoverlap_def apart_def split: if_splits)
qed

lemma absorb_fst_before_snd:
  "sorted_wrt apart rest \<Longrightarrow> x \<in> set (fst (absorb a t rest)) \<Longrightarrow>
   d \<in> set (snd (absorb a t rest)) \<Longrightarrow> author d = a \<Longrightarrow> cto x < cfrom d"
proof (induction rest)
  case Nil
  then show ?case by simp
next
  case (Cons n rest)
  from Cons.prems(1) have n: "\<forall>y\<in>set rest. apart n y" and rest: "sorted_wrt apart rest"
    by simp_all
  show ?case
  proof (cases "author n = a")
    case False
    with Cons.prems have "x \<in> set (fst (absorb a t rest))" "d \<in> set (snd (absorb a t rest))"
      by (auto simp: case_prod_beta)
    with Cons.IH rest Cons.prems(4) show ?thesis by blast
  next
    case True
    show ?thesis
    proof (cases "t < cfrom n")
      case True
      with \<open>author n = a\<close> Cons.prems(2) show ?thesis by simp
    next
      case False
      with \<open>author n = a\<close> Cons.prems
      have x: "x = n \<or> x \<in> set (fst (absorb a t rest))"
        and d: "d \<in> set (snd (absorb a t rest))"
        by (auto simp: case_prod_beta)
      from x show ?thesis
      proof
        assume "x = n"
        moreover from d absorb_snd_subset [of a t rest] have "d \<in> set rest" by blast
        ultimately show ?thesis using n \<open>author n = a\<close> Cons.prems(4)
          by (auto simp: apart_def)
      next
        assume "x \<in> set (fst (absorb a t rest))"
        with Cons.IH rest d Cons.prems(4) show ?thesis by blast
      qed
    qed
  qed
qed

lemma recordRange_loop_before:
  assumes "\<forall>c\<in>set cs. apart x c" and "author x = a \<longrightarrow> cto x < f"
  shows "\<forall>d\<in>set (fst (recordRange_loop ops doc f t a k cs)). apart x d"
  using assms(1)
proof (induction cs)
  case Nil
  with assms(2) show ?case by (simp add: apart_def)
next
  case (Cons c cs)
  show ?case
  proof (cases "author c \<noteq> a \<or> cto c < f")
    case True
    with Cons show ?thesis by (auto simp: case_prod_beta)
  next
    case False
    show ?thesis
    proof (cases "cfrom c > t")
      case True
      with False Cons.prems assms(2) show ?thesis by (auto simp: apart_def)
    next
      case nb: False
      have "apart x d" if "d \<in> set (fst (merge_at ops doc f t a k c cs))" for d
      proof -
        from that have "d = hd (fst (merge_at ops doc f t a k c cs)) \<or>
            d \<in> set (snd (absorb a t cs))"
          by (auto simp: merge_at_fst)
        then show ?thesis
        proof
          assume "d = hd (fst (merge_at ops doc f t a k c cs))"
          with False Cons.prems assms(2) show ?thesis
            by (auto simp: merge_at_fst apart_def)
        next
          assume "d \<in> set (snd (absorb a t cs))"
          with absorb_snd_subset [of a t cs] Cons.prems show ?thesis by auto
        qed
      qed
      with False nb show ?thesis by (auto simp: case_prod_beta)
    qed
  qed
qed

lemma last_absorbed_before:
  assumes "sorted_wrt apart (c # cs)" and "author c = a"
    and "d \<in> set (snd (absorb a t cs))" and "author d = a"
  shows "cto (last (c # fst (absorb a t cs))) < cfrom d"
proof (cases "fst (absorb a t cs) = []")
  case True
  from assms(3) absorb_snd_subset [of a t cs] have "d \<in> set cs" by blast
  with assms(1,2,4) True show ?thesis by (auto simp: apart_def)
next
  case False
  then have "last (c # fst (absorb a t cs)) \<in> set (fst (absorb a t cs))" by simp
  with absorb_fst_before_snd [of cs _ a t d] assms show ?thesis by simp
qed

lemma recordRange_loop_nonoverlap:
  assumes "f \<le> t"
  shows "nonoverlap cs \<Longrightarrow> nonoverlap (fst (recordRange_loop ops doc f t a k cs))"
proof (induction cs)
  case Nil
  with assms show ?case by (simp add: nonoverlap_def)
next
  case (Cons c cs)
  from Cons.prems have c: "\<forall>y\<in>set cs. apart c y" and cs: "nonoverlap cs"
    and cle: "cfrom c \<le> cto c" and sw: "sorted_wrt apart (c # cs)"
    by (simp_all add: nonoverlap_def)
  show ?case
  proof (cases "author c \<noteq> a \<or> cto c < f")
    case True
    then have "author c = a \<longrightarrow> cto c < f" by blast
    from recordRange_loop_before [OF c this, of ops doc t k] Cons.IH [OF cs] cle True
    show ?thesis by (auto simp: case_prod_beta nonoverlap_def)
  next
    case False
    then have ac: "author c = a" and cf: "f \<le> cto c" by auto
    show ?thesis
    proof (cases "cfrom c > t")
      case True
      have "apart \<lparr>cfrom = f, cto = t, deleted = doc_slice ops doc f t, author = a,
                     ident = None\<rparr> y" if "y \<in> set (c # cs)" for y
        using that c cle True ac by (fastforce simp: apart_def)
      with False True Cons.prems assms show ?thesis
        by (auto simp: nonoverlap_def)
    next
      case nb: False
      let ?ab = "fst (absorb a t cs)" and ?st = "snd (absorb a t cs)"
      have st_sorted: "sorted_wrt apart ?st"
        using cs absorb_snd_sorted [of apart cs a t] by (simp add: nonoverlap_def)
      have st_le: "\<forall>y\<in>set ?st. cfrom y \<le> cto y"
        using cs absorb_snd_subset [of a t cs] by (auto simp: nonoverlap_def)
      have st_after: "max (cto (last (c # ?ab))) t < cfrom d"
        if "d \<in> set ?st" "author d = a" for d
        using that last_absorbed_before [OF sw ac that] absorb_snd_after [OF cs that]
        by simp
      have "min (cfrom c) f \<le> max (cto (last (c # ?ab))) t"
        using assms by simp
      with st_sorted st_le st_after ac
      have "nonoverlap (fst (merge_at ops doc f t a k c cs))"
        unfolding merge_at_fst nonoverlap_def by (auto simp: apart_def)
      with False nb show ?thesis by (simp add: case_prod_beta)
    qed
  qed
qed

lemma recordRange_nonoverlap:
  "f \<le> t \<Longrightarrow> nonoverlap cs \<Longrightarrow> nonoverlap (fst (recordRange ops cs doc f t a u))"
  using recordRange_loop_nonoverlap [of f t cs ops doc a "length u"]
  by (simp add: recordRange_def case_prod_beta)

lemma derived_shrinks:
  assumes "minimize_shrinks ops cs m auth u d" and "c \<in> set cs"
    and "derived ops m auth u d c y"
  shows "m (cfrom c) (if auth = Some (author c) then - 1 else 1) \<le> cfrom y \<and>
         cto y \<le> m (cto c) (if auth = Some (author c) then 1 else - 1)"
proof -
  from assms(3) obtain mapped where
    mp: "TrackedChange_map ops c m (auth = Some (author c)) = Some mapped" and
    y: "y = mapped \<or> (\<exists>side. updated_side u c = Some side \<and>
            minimizeChange ops mapped d side = Some (Some y))"
    by (auto simp: derived_def)
  from y have "cfrom mapped \<le> cfrom y \<and> cto y \<le> cto mapped"
  proof
    assume "y = mapped"
    then show ?thesis by simp
  next
    assume "\<exists>side. updated_side u c = Some side \<and>
            minimizeChange ops mapped d side = Some (Some y)"
    with assms(1,2) mp show ?thesis unfolding minimize_shrinks_def by blast
  qed
  with TrackedChange_map_Some [OF mp] show ?thesis by simp
qed

lemma mapChanges_nonoverlap:
  assumes "nonoverlap cs" and "spreading m" and "minimize_shrinks ops cs m auth u d"
    and "mapChanges ops cs m auth u d = Some r"
  shows "nonoverlap r"
proof -
  have "apart y y'"
    if "c \<in> set cs" "c' \<in> set cs" "apart c c'" "derived ops m auth u d c y"
      "derived ops m auth u d c' y'" for c c' y y'
  proof -
    from derived_shrinks [OF assms(3) that(1,4)] derived_shrinks [OF assms(3) that(2,5)]
      derived_basic [OF that(4)] derived_basic [OF that(5)] that(3) assms(2)
    show ?thesis unfolding apart_def spreading_def
      by (metis (no_types, lifting) le_less_trans less_le_trans)
  qed
  from mapChanges_sorted_wrt [of cs apart ops m auth u d apart, OF this _ assms(4)] assms(1)
  have "sorted_wrt apart r" by (auto simp: nonoverlap_def)
  moreover have "cfrom y \<le> cto y" if "y \<in> set r" for y
  proof -
    from mapChanges_derived [OF assms(4) that] obtain c where
      "derived ops m auth u d c y" by blast
    from derived_basic [OF this] show ?thesis by simp
  qed
  ultimately show ?thesis by (simp add: nonoverlap_def)
qed

lemma minimize_shrinks_none: "minimize_shrinks ops cs m auth (Some []) d"
  "minimize_shrinks ops cs m auth None d"
  by (simp_all add: minimize_shrinks_def updated_side_def split: option.splits)

subsection \<open>Changes of one author that may touch\<close>

lemma absorb_snd_after_linked:
  "chained rest \<Longrightarrow> d \<in> set (snd (absorb a t rest)) \<Longrightarrow> author d = a \<Longrightarrow> t < cfrom d"
proof (induction rest)
  case Nil
  then show ?case by simp
next
  case (Cons n rest)
  then show ?case
    by (fastforce simp: case_prod_beta chained_def linked_def split: if_splits)
qed

lemma absorb_fst_before_snd_linked:
  "sorted_wrt linked rest \<Longrightarrow> x \<in> set (fst (absorb a t rest)) \<Longrightarrow>
   d \<in> set (snd (absorb a t rest)) \<Longrightarrow> author d = a \<Longrightarrow> cto x \<le> cfrom d"
proof (induction rest)
  case Nil
  then show ?case by simp
next
  case (Cons n rest)
  from Cons.prems(1) have n: "\<forall>y\<in>set rest. linked n y" and rest: "sorted_wrt linked rest"
    by simp_all
  show ?case
  proof (cases "author n = a")
    case False
    with Cons.prems have "x \<in> set (fst (absorb a t rest))" "d \<in> set (snd (absorb a t rest))"
      by (auto simp: case_prod_beta)
    with Cons.IH rest Cons.prems(4) show ?thesis by blast
  next
    case True
    show ?thesis
    proof (cases "t < cfrom n")
      case True
      with \<open>author n = a\<close> Cons.prems(2) show ?thesis by simp
    next
      case False
      with \<open>author n = a\<close> Cons.prems
      have x: "x = n \<or> x \<in> set (fst (absorb a t rest))"
        and d: "d \<in> set (snd (absorb a t rest))"
        by (auto simp: case_prod_beta)
      from x show ?thesis
      proof
        assume "x = n"
        moreover from d absorb_snd_subset [of a t rest] have "d \<in> set rest" by blast
        ultimately show ?thesis using n \<open>author n = a\<close> Cons.prems(4)
          by (auto simp: linked_def)
      next
        assume "x \<in> set (fst (absorb a t rest))"
        with Cons.IH rest d Cons.prems(4) show ?thesis by blast
      qed
    qed
  qed
qed

lemma recordRange_loop_before_linked:
  assumes "\<forall>c\<in>set cs. linked x c" and "author x = a \<longrightarrow> cto x < f"
  shows "\<forall>d\<in>set (fst (recordRange_loop ops doc f t a k cs)). linked x d"
  using assms(1)
proof (induction cs)
  case Nil
  with assms(2) show ?case by (auto simp: linked_def)
next
  case (Cons c cs)
  show ?case
  proof (cases "author c \<noteq> a \<or> cto c < f")
    case True
    with Cons show ?thesis by (auto simp: case_prod_beta)
  next
    case False
    show ?thesis
    proof (cases "cfrom c > t")
      case True
      with False Cons.prems assms(2) show ?thesis by (auto simp: linked_def)
    next
      case nb: False
      have "linked x d" if "d \<in> set (fst (merge_at ops doc f t a k c cs))" for d
      proof -
        from that have "d = hd (fst (merge_at ops doc f t a k c cs)) \<or>
            d \<in> set (snd (absorb a t cs))"
          by (auto simp: merge_at_fst)
        then show ?thesis
        proof
          assume "d = hd (fst (merge_at ops doc f t a k c cs))"
          with False Cons.prems assms(2) show ?thesis
            by (auto simp: merge_at_fst linked_def)
        next
          assume "d \<in> set (snd (absorb a t cs))"
          with absorb_snd_subset [of a t cs] Cons.prems show ?thesis by auto
        qed
      qed
      with False nb show ?thesis by (auto simp: case_prod_beta)
    qed
  qed
qed

lemma last_absorbed_before_linked:
  assumes "sorted_wrt linked (c # cs)" and "author c = a"
    and "d \<in> set (snd (absorb a t cs))" and "author d = a"
  shows "cto (last (c # fst (absorb a t cs))) \<le> cfrom d"
proof (cases "fst (absorb a t cs) = []")
  case True
  from assms(3) absorb_snd_subset [of a t cs] have "d \<in> set cs" by blast
  with assms(1,2,4) True show ?thesis by (auto simp: linked_def)
next
  case False
  then have "last (c # fst (absorb a t cs)) \<in> set (fst (absorb a t cs))" by simp
  with absorb_fst_before_snd_linked [of cs _ a t d] assms show ?thesis by simp
qed

lemma recordRange_loop_chained:
  assumes "f \<le> t"
  shows "chained cs \<Longrightarrow> chained (fst (recordRange_loop ops doc f t a k cs))"
proof (induction cs)
  case Nil
  with assms show ?case by (simp add: chained_def)
next
  case (Cons c cs)
  from Cons.prems have c: "\<forall>y\<in>set cs. linked c y" and cs: "chained cs"
    and cle: "cfrom c \<le> cto c" and sw: "sorted_wrt linked (c # cs)"
    by (simp_all add: chained_def)
  show ?case
  proof (cases "author c \<noteq> a \<or> cto c < f")
    case True
    then have "author c = a \<longrightarrow> cto c < f" by blast
    from recordRange_loop_before_linked [OF c this, of ops doc t k] Cons.IH [OF cs] cle True
    show ?thesis by (auto simp: case_prod_beta chained_def)
  next
    case False
    then have ac: "author c = a" and cf: "f \<le> cto c" by auto
    show ?thesis
    proof (cases "cfrom c > t")
      case True
      have "linked \<lparr>cfrom = f, cto = t, deleted = doc_slice ops doc f t, author = a,
                     ident = None\<rparr> y" if "y \<in> set (c # cs)" for y
        using that c cle True ac by (fastforce simp: linked_def)
      with False True Cons.prems assms show ?thesis
        by (auto simp: chained_def)
    next
      case nb: False
      let ?ab = "fst (absorb a t cs)" and ?st = "snd (absorb a t cs)"
      have st_sorted: "sorted_wrt linked ?st"
        using cs absorb_snd_sorted [of linked cs a t] by (simp add: chained_def)
      have st_le: "\<forall>y\<in>set ?st. cfrom y \<le> cto y"
        using cs absorb_snd_subset [of a t cs] by (auto simp: chained_def)
      have st_after: "max (cto (last (c # ?ab))) t \<le> cfrom d"
        if "d \<in> set ?st" "author d = a" for d
        using that last_absorbed_before_linked [OF sw ac that] absorb_snd_after_linked [OF cs that]
        by simp
      have "min (cfrom c) f \<le> max (cto (last (c # ?ab))) t"
        using assms by simp
      with st_sorted st_le st_after ac
      have "chained (fst (merge_at ops doc f t a k c cs))"
        unfolding merge_at_fst chained_def by (auto simp: linked_def)
      with False nb show ?thesis by (simp add: case_prod_beta)
    qed
  qed
qed

lemma recordRange_chained:
  "f \<le> t \<Longrightarrow> chained cs \<Longrightarrow> chained (fst (recordRange ops cs doc f t a u))"
  using recordRange_loop_chained [of f t cs ops doc a "length u"]
  by (simp add: recordRange_def case_prod_beta)

subsection \<open>One step of \<^verbatim>\<open>record\<close>\<close>

lemma replace_map_StepMap:
  "0 \<le> old \<Longrightarrow> 0 \<le> new \<Longrightarrow> replace_map s old new (StepMap_map [(s, old, new)])"
  by (auto simp: replace_map_def monotone_across_def StepMap_map_def Let_def)

lemma replace_map_inclusive:
  assumes "replace_map s old new m"
    and "p < s \<or> s + old \<le> p" and "q \<le> s \<or> s + old < q"
    and "\<not> (s + old \<le> p \<and> q \<le> s)"
  shows "p \<le> q \<longrightarrow> m p 1 \<le> m q (- 1)" and "p < q \<longrightarrow> m p 1 < m q (- 1)"
proof -
  from assms(1) have o: "0 \<le> old" and n: "0 \<le> new"
    and before: "\<And>p b. p < s \<Longrightarrow> m p b = p"
    and after: "\<And>p b. s + old < p \<Longrightarrow> m p b = p + new - old"
    and inside: "\<And>p b. s \<le> p \<Longrightarrow> p \<le> s + old \<Longrightarrow> s \<le> m p b \<and> m p b \<le> s + new"
    by (auto simp: replace_map_def monotone_across_def)
  have "(p \<le> q \<longrightarrow> m p 1 \<le> m q (- 1)) \<and> (p < q \<longrightarrow> m p 1 < m q (- 1))"
  proof (cases "p < s")
    case True
    note ps = this
    show ?thesis
    proof (cases "q < s")
      case True
      with ps before [of p 1] before [of q "- 1"] show ?thesis by simp
    next
      case False
      show ?thesis
      proof (cases "q = s")
        case True
        with inside [of q "- 1"] o ps before [of p 1] show ?thesis by simp
      next
        case False
        with \<open>\<not> q < s\<close> assms(3) have "s + old < q" by simp
        with after [of q "- 1"] ps before [of p 1] o n show ?thesis by simp
      qed
    qed
  next
    case False
    with assms(2) have ep: "s + old \<le> p" by simp
    with assms(4) have "s < q" by simp
    with assms(3) have eq: "s + old < q" by simp
    show ?thesis
    proof (cases "p = s + old")
      case True
      with inside [of p 1] o after [of q "- 1"] eq show ?thesis by simp
    next
      case False
      with ep have "s + old < p" by simp
      with after [of p 1] after [of q "- 1"] eq show ?thesis by simp
    qed
  qed
  then show "p \<le> q \<longrightarrow> m p 1 \<le> m q (- 1)" and "p < q \<longrightarrow> m p 1 < m q (- 1)"
    by simp_all
qed

lemma recordRange_loop_shape:
  assumes "chained cs" and "f \<le> t"
  shows "\<exists>pre X post. fst (recordRange_loop ops doc f t a k cs) = pre @ X # post \<and>
           (\<forall>c\<in>set pre \<union> set post. \<not> touches a f t c) \<and>
           author X = a \<and> covers f t X"
proof (cases "filter (touches a f t) cs = []")
  case True
  then have nt: "\<forall>c\<in>set cs. \<not> touches a f t c" by (simp add: filter_empty_conv)
  let ?P = "\<lambda>c. author c \<noteq> a \<or> cto c < f"
  let ?X = "\<lparr>cfrom = f, cto = t, deleted = doc_slice ops doc f t, author = a, ident = None\<rparr>"
  from recordRange_loop_inserts [OF nt, of ops doc k]
  have 1: "fst (recordRange_loop ops doc f t a k cs) = takeWhile ?P cs @ ?X # dropWhile ?P cs"
    by simp
  have 2: "\<forall>c\<in>set (takeWhile ?P cs) \<union> set (dropWhile ?P cs). \<not> touches a f t c"
    using nt by (auto dest: set_takeWhileD set_dropWhileD)
  have 3: "author ?X = a \<and> covers f t ?X" using assms(2) by (simp add: covers_def)
  from 1 2 3 show ?thesis by blast
next
  case False
  let ?M = "filter (touches a f t) cs"
  let ?N = "\<lambda>c. \<not> touches a f t c"
  let ?X = "\<lparr>cfrom = Min (insert f (cfrom ` set ?M)),
          cto = Max (insert t (cto ` set ?M)),
          deleted =
            (if f < cfrom (hd ?M) \<or> cto (hd ?M) < t \<or> 1 < length ?M
             then applyAndSlice ops doc ?M (Min (insert f (cfrom ` set ?M)))
                    (Max (insert t (cto ` set ?M)))
             else deleted (hd ?M)),
          author = a, ident = Some k\<rparr>"
  have "Min (insert f (cfrom ` set ?M)) \<le> f" by (rule Min_le) simp_all
  moreover have "t \<le> Max (insert t (cto ` set ?M))" by (rule Max_ge) simp_all
  ultimately have 3: "author ?X = a \<and> covers f t ?X" by (simp add: covers_def)
  have 2: "\<forall>c\<in>set (takeWhile ?N cs) \<union> set (filter ?N (dropWhile ?N cs)). ?N c"
    by (auto dest: set_takeWhileD)
  from recordRange_loop_merges [OF assms(1) False, of ops doc k]
  have 1: "fst (recordRange_loop ops doc f t a k cs) =
      takeWhile ?N cs @ ?X # filter ?N (dropWhile ?N cs)" by simp
  from 1 2 3 show ?thesis by blast
qed

lemma recordRange_settled:
  assumes "chained cs" and "f \<le> t"
  shows "(\<forall>c\<in>set (fst (recordRange ops cs doc f t a u)). settled a f t c) \<and>
         sorted_wrt (single a f t) (fst (recordRange ops cs doc f t a u))"
proof -
  from recordRange_loop_shape [OF assms, of ops doc a "length u"] obtain pre X post where
    sh: "fst (recordRange_loop ops doc f t a (length u) cs) = pre @ X # post"
    and nt: "\<forall>c\<in>set pre \<union> set post. \<not> touches a f t c"
    and X: "author X = a" "covers f t X" by blast
  have fst: "fst (recordRange ops cs doc f t a u) = pre @ X # post"
    using sh by (simp add: recordRange_def case_prod_beta)
  have "sorted_wrt (single a f t) xs" if "\<forall>c\<in>set xs. \<not> touches a f t c" for xs
    using that by (induction xs) (auto simp: single_def)
  with nt have "sorted_wrt (single a f t) (pre @ X # post)"
    by (auto simp: sorted_wrt_append single_def)
  moreover from nt X have "\<forall>c\<in>set (pre @ X # post). settled a f t c"
    by (auto simp: settled_def)
  ultimately show ?thesis by (simp add: fst)
qed

lemma settled_positions:
  assumes "settled a s (s + old) c" and "author c = a" and "cfrom c \<le> cto c"
  shows "cto c < s \<or> s + old \<le> cto c" and "cfrom c \<le> s \<or> s + old < cfrom c"
  using assms by (auto simp: settled_def covers_def touches_def)

lemma settled_pair:
  assumes "settled a s (s + old) c" "settled a s (s + old) c'" "single a s (s + old) c c'"
    and "author c = a" "author c' = a" "cfrom c \<le> cto c" "cfrom c' \<le> cto c'"
    and "cto c \<le> cfrom c'" and "0 \<le> old"
  shows "\<not> (s + old \<le> cto c \<and> cfrom c' \<le> s)"
  using assms by (auto simp: settled_def covers_def touches_def single_def)

lemma sorted_wrt_conj:
  "sorted_wrt P xs \<Longrightarrow> sorted_wrt Q xs \<Longrightarrow> sorted_wrt (\<lambda>x y. P x y \<and> Q x y) xs"
  by (induction xs) auto

lemma mapped_pair:
  assumes rm: "replace_map s old new m"
    and guard: "minimize_shrinks ops cs1 m (Some a) u d"
    and c: "c \<in> set cs1" "settled a s (s + old) c" "cfrom c \<le> cto c"
    and c': "c' \<in> set cs1" "settled a s (s + old) c'" "cfrom c' \<le> cto c'"
    and single: "single a s (s + old) c c'"
    and y: "derived ops m (Some a) u d c y" and y': "derived ops m (Some a) u d c' y'"
    and same: "author c = author c'"
  shows "cto c \<le> cfrom c' \<longrightarrow> cto y \<le> cfrom y'"
    and "author c = a \<longrightarrow> cto c < cfrom c' \<longrightarrow> cto y < cfrom y'"
proof -
  from rm have o: "0 \<le> old" and across: "\<And>p q. p \<le> q \<Longrightarrow> m p (- 1) \<le> m q 1"
    by (auto simp: replace_map_def monotone_across_def)
  from derived_shrinks [OF guard c(1) y]
  have yb: "cto y \<le> m (cto c) (if Some a = Some (author c) then 1 else - 1)" by simp
  from derived_shrinks [OF guard c'(1) y']
  have yb': "m (cfrom c') (if Some a = Some (author c') then - 1 else 1) \<le> cfrom y'" by simp
  have "(cto c \<le> cfrom c' \<longrightarrow> cto y \<le> cfrom y') \<and>
        (author c = a \<longrightarrow> cto c < cfrom c' \<longrightarrow> cto y < cfrom y')"
  proof (cases "author c = a")
    case True
    with same have a': "author c' = a" by simp
    have le: "cto y \<le> cfrom y'" if "cto c \<le> cfrom c'"
    proof -
      from settled_pair [OF c(2) c'(2) single True a' c(3) c'(3) that o]
      have "\<not> (s + old \<le> cto c \<and> cfrom c' \<le> s)" .
      from replace_map_inclusive(1) [OF rm settled_positions(1) [OF c(2) True c(3)]
          settled_positions(2) [OF c'(2) a' c'(3)] this] that
      have "m (cto c) 1 \<le> m (cfrom c') (- 1)" by simp
      with yb yb' True a' show ?thesis by simp
    qed
    have less: "cto y < cfrom y'" if "cto c < cfrom c'"
    proof -
      from that have "cto c \<le> cfrom c'" by simp
      from settled_pair [OF c(2) c'(2) single True a' c(3) c'(3) this o]
      have "\<not> (s + old \<le> cto c \<and> cfrom c' \<le> s)" .
      from replace_map_inclusive(2) [OF rm settled_positions(1) [OF c(2) True c(3)]
          settled_positions(2) [OF c'(2) a' c'(3)] this] that
      have "m (cto c) 1 < m (cfrom c') (- 1)" by simp
      with yb yb' True a' show ?thesis by simp
    qed
    from le less show ?thesis by blast
  next
    case False
    with same have a': "author c' \<noteq> a" by simp
    have "cto y \<le> cfrom y'" if "cto c \<le> cfrom c'"
      using across [OF that] yb yb' False a' by auto
    with False show ?thesis by blast
  qed
  then show "cto c \<le> cfrom c' \<longrightarrow> cto y \<le> cfrom y'"
    and "author c = a \<longrightarrow> cto c < cfrom c' \<longrightarrow> cto y < cfrom y'" by simp_all
qed

lemma mapChanges_valid:
  assumes "mapChanges ops cs m auth u d = Some r"
  shows "\<forall>y\<in>set r. cfrom y \<le> cto y"
proof
  fix y assume "y \<in> set r"
  from mapChanges_derived [OF assms this] obtain c where "derived ops m auth u d c y" by blast
  from derived_basic [OF this] show "cfrom y \<le> cto y" by simp
qed

lemma edit_chained:
  fixes cs :: "('s, 'a) TrackedChange list"
  assumes ch: "chained cs" and rm: "replace_map s old new m"
    and guard: "step_shrinks ops cs doc s old m a d"
    and res: "mapChanges ops (fst (recordRange ops cs doc s (s + old) a [])) m (Some a)
                (Some (snd (recordRange ops cs doc s (s + old) a []))) d = Some r"
  shows "chained r"
proof -
  let ?cs1 = "fst (recordRange ops cs doc s (s + old) a [])"
  let ?u = "Some (snd (recordRange ops cs doc s (s + old) a []))"
  from rm have o: "s \<le> s + old" by (simp add: replace_map_def monotone_across_def)
  from recordRange_chained [OF o ch] have ch1: "chained ?cs1" .
  from recordRange_settled [OF ch o, of ops doc a "[]"]
  have st: "\<forall>c\<in>set ?cs1. settled a s (s + old) c"
    and sg: "sorted_wrt (single a s (s + old)) ?cs1" by simp_all
  from guard have g: "minimize_shrinks ops ?cs1 m (Some a) ?u d" by (simp add: step_shrinks_def)
  from ch1 have le: "\<forall>c\<in>set ?cs1. cfrom c \<le> cto c" and sw: "sorted_wrt linked ?cs1"
    by (simp_all add: chained_def)
  define Q where "Q = (\<lambda>(c :: ('s, 'a) TrackedChange) c'. linked c c' \<and> single a s (s + old) c c')"
  from sorted_wrt_conj [OF sw sg] have sq: "sorted_wrt Q ?cs1" by (simp add: Q_def)
  have "linked y y'"
    if c: "c \<in> set ?cs1" and c': "c' \<in> set ?cs1" and q: "Q c c'"
      and y: "derived ops m (Some a) ?u d c y" and y': "derived ops m (Some a) ?u d c' y'"
    for c c' y y'
  proof -
    have "cto y \<le> cfrom y'" if same: "author y = author y'"
    proof -
      from derived_basic [OF y] derived_basic [OF y'] same
      have sa: "author c = author c'" by simp
      with q have lt: "cto c \<le> cfrom c'" by (simp add: linked_def Q_def)
      from st c have 1: "settled a s (s + old) c" by simp
      from st c' have 2: "settled a s (s + old) c'" by simp
      from le c have 3: "cfrom c \<le> cto c" by simp
      from le c' have 4: "cfrom c' \<le> cto c'" by simp
      from q have 5: "single a s (s + old) c c'" by (simp add: Q_def)
      from mapped_pair(1) [OF rm g c 1 3 c' 2 4 5 y y' sa] lt show ?thesis by simp
    qed
    then show ?thesis by (simp add: linked_def)
  qed
  from mapChanges_sorted_wrt [of ?cs1 Q ops m "Some a" ?u d linked, OF this sq res]
  have "sorted_wrt linked r" .
  with mapChanges_valid [OF res] show ?thesis by (simp add: chained_def)
qed

lemma recordRange_own_only:
  assumes "\<forall>c\<in>set cs. author c = a"
  shows "\<forall>c\<in>set (fst (recordRange ops cs doc f t a u)). author c = a"
proof -
  from assms have "filter (\<lambda>c. author c \<noteq> a) cs = []" by (simp add: filter_empty_conv)
  with recordRange_loop_others [of a ops doc f t "length u" cs]
  have "filter (\<lambda>c. author c \<noteq> a) (fst (recordRange ops cs doc f t a u)) = []"
    by (simp add: recordRange_def case_prod_beta)
  then show ?thesis by (simp add: filter_empty_conv)
qed

lemma edit_nonoverlap:
  fixes cs :: "('s, 'a) TrackedChange list"
  assumes no: "nonoverlap cs" and own: "\<forall>c\<in>set cs. author c = a"
    and rm: "replace_map s old new m"
    and guard: "step_shrinks ops cs doc s old m a d"
    and res: "mapChanges ops (fst (recordRange ops cs doc s (s + old) a [])) m (Some a)
                (Some (snd (recordRange ops cs doc s (s + old) a []))) d = Some r"
  shows "nonoverlap r"
proof -
  let ?cs1 = "fst (recordRange ops cs doc s (s + old) a [])"
  let ?u = "Some (snd (recordRange ops cs doc s (s + old) a []))"
  from rm have o: "s \<le> s + old" by (simp add: replace_map_def monotone_across_def)
  from recordRange_nonoverlap [OF o no] have no1: "nonoverlap ?cs1" .
  from recordRange_settled [OF nonoverlap_chained [OF no] o, of ops doc a "[]"]
  have st: "\<forall>c\<in>set ?cs1. settled a s (s + old) c"
    and sg: "sorted_wrt (single a s (s + old)) ?cs1" by simp_all
  from recordRange_own_only [OF own] have own1: "\<forall>c\<in>set ?cs1. author c = a" .
  from guard have g: "minimize_shrinks ops ?cs1 m (Some a) ?u d" by (simp add: step_shrinks_def)
  from no1 have le: "\<forall>c\<in>set ?cs1. cfrom c \<le> cto c" and sw: "sorted_wrt apart ?cs1"
    by (simp_all add: nonoverlap_def)
  define Q where "Q = (\<lambda>(c :: ('s, 'a) TrackedChange) c'. apart c c' \<and> single a s (s + old) c c')"
  from sorted_wrt_conj [OF sw sg] have sq: "sorted_wrt Q ?cs1" by (simp add: Q_def)
  have "apart y y'"
    if c: "c \<in> set ?cs1" and c': "c' \<in> set ?cs1" and q: "Q c c'"
      and y: "derived ops m (Some a) ?u d c y" and y': "derived ops m (Some a) ?u d c' y'"
    for c c' y y'
  proof -
    from own1 c c' have sa: "author c = author c'" and ca: "author c = a" by simp_all
    with q have lt: "cto c < cfrom c'" by (simp add: apart_def Q_def)
    from st c have 1: "settled a s (s + old) c" by simp
    from st c' have 2: "settled a s (s + old) c'" by simp
    from le c have 3: "cfrom c \<le> cto c" by simp
    from le c' have 4: "cfrom c' \<le> cto c'" by simp
    from q have 5: "single a s (s + old) c c'" by (simp add: Q_def)
    from mapped_pair(2) [OF rm g c 1 3 c' 2 4 5 y y' sa] lt ca
    have "cto y < cfrom y'" by simp
    then show ?thesis by (simp add: apart_def)
  qed
  from mapChanges_sorted_wrt [of ?cs1 Q ops m "Some a" ?u d apart, OF this sq res]
  have "sorted_wrt apart r" .
  with mapChanges_valid [OF res] show ?thesis by (simp add: nonoverlap_def)
qed

lemma untracked_chained:
  assumes "chained cs" and "monotone_across m" and "\<forall>c\<in>set cs. auth \<noteq> Some (author c)"
    and "minimize_shrinks ops cs m auth u d"
    and "mapChanges ops cs m auth u d = Some r"
  shows "chained r"
proof -
  have "linked y y'"
    if "c \<in> set cs" "c' \<in> set cs" "linked c c'" "derived ops m auth u d c y"
      "derived ops m auth u d c' y'" for c c' y y'
  proof -
    have "cto y \<le> cfrom y'" if same: "author y = author y'"
    proof -
      from derived_basic [OF \<open>derived ops m auth u d c y\<close>]
        derived_basic [OF \<open>derived ops m auth u d c' y'\<close>] same \<open>linked c c'\<close>
      have "cto c \<le> cfrom c'" by (simp add: linked_def)
      with assms(2) have "m (cto c) (- 1) \<le> m (cfrom c') 1" by (simp add: monotone_across_def)
      with derived_shrinks [OF assms(4) \<open>c \<in> set cs\<close> \<open>derived ops m auth u d c y\<close>]
        derived_shrinks [OF assms(4) \<open>c' \<in> set cs\<close> \<open>derived ops m auth u d c' y'\<close>]
        assms(3) \<open>c \<in> set cs\<close> \<open>c' \<in> set cs\<close>
      show ?thesis by auto
    qed
    then show ?thesis by (simp add: linked_def)
  qed
  from mapChanges_sorted_wrt [of cs linked ops m auth u d linked, OF this _ assms(5)] assms(1)
  have "sorted_wrt linked r" by (auto simp: chained_def)
  with mapChanges_valid [OF assms(5)] show ?thesis by (simp add: chained_def)
qed

lemma record_one_step:
  "steps tr = [(doc, sm)] \<Longrightarrow> ranges sm = [(s, old, new)] \<Longrightarrow>
   ChangeTracking_record ops cs tr a =
     mapChanges ops (fst (recordRange ops cs doc s (s + old) a [])) (map_pos sm) (Some a)
       (Some (snd (recordRange ops cs doc s (s + old) a []))) (final_doc tr)"
  by (cases "recordRange ops cs doc s (s + old) a []")
     (auto simp: ChangeTracking_record_def split: option.splits)

lemma step_shrinks_none:
  "snd (recordRange ops cs doc s (s + old) a []) = [] \<Longrightarrow> step_shrinks ops cs doc s old m a d"
  by (simp add: step_shrinks_def minimize_shrinks_none)

lemma reach_apart_nonoverlap: "reach_apart ops cs \<Longrightarrow> nonoverlap cs"
proof (induction rule: reach_apart.induct)
  case init
  show ?case by (simp add: nonoverlap_def)
next
  case (rec cs f t doc a u)
  then show ?case by (simp add: recordRange_nonoverlap)
next
  case (mapc cs m auth u d cs')
  from mapChanges_nonoverlap [OF mapc.IH mapc.hyps(2,3,4)] show ?case .
next
  case (edit cs a tr doc sm s old new cs')
  from edit.hyps(7) record_one_step [OF edit.hyps(3,4), of ops cs a]
  have "mapChanges ops (fst (recordRange ops cs doc s (s + old) a [])) (map_pos sm) (Some a)
       (Some (snd (recordRange ops cs doc s (s + old) a []))) (final_doc tr) = Some cs'"
    by simp
  from edit_nonoverlap [OF edit.IH edit.hyps(2,5,6) this] show ?case .
qed

lemma nonoverlap_pairs:
  assumes "nonoverlap cs" "i < length cs" "j < length cs" "i \<noteq> j"
    "author (cs ! i) = author (cs ! j)" "cfrom (cs ! i) \<le> cfrom (cs ! j)"
  shows "cto (cs ! i) < cfrom (cs ! j)"
proof (cases "i < j")
  case True
  with assms show ?thesis
    by (auto simp: nonoverlap_def sorted_wrt_iff_nth_less apart_def)
next
  case False
  with assms have "j < i" by simp
  with assms have "cto (cs ! j) < cfrom (cs ! i)"
    by (auto simp: nonoverlap_def sorted_wrt_iff_nth_less apart_def)
  moreover from assms have "cfrom (cs ! j) \<le> cto (cs ! j)"
    by (auto simp: nonoverlap_def)
  ultimately show ?thesis using assms(6) by simp
qed

lemma spreading_insert: "0 \<le> n \<Longrightarrow> spreading (StepMap_map [(s, 0, n)])"
  by (auto simp: spreading_def StepMap_map_def)

text \<open>
  Claim C2, as amended. Take the change sets reached from the empty one by calls of
  \<^verbatim>\<open>recordRange\<close> with \<open>from \<le> to\<close>, by calls of \<^verbatim>\<open>mapChanges\<close> whose position map
  keeps distinct positions distinct and in order (as the map of an insertion does)
  and whose minimizer only shrinks the changes it is given, and by calls of \<^verbatim>\<open>record\<close>
  for a transform of one step with one replaced range, made by the author of all the
  changes of the set, where the map is that of the replacement and the minimizer only
  shrinks. In every such change set two different changes of the same author neither
  overlap nor touch: the one that starts first ends strictly before the other starts.
\<close>

theorem same_author_changes_apart:
  assumes "reach_apart ops cs"
  shows "\<forall>i j. i < length cs \<and> j < length cs \<and> i \<noteq> j \<and>
           author (cs ! i) = author (cs ! j) \<and> cfrom (cs ! i) \<le> cfrom (cs ! j)
           \<longrightarrow> cto (cs ! i) < cfrom (cs ! j)"
  using nonoverlap_pairs [OF reach_apart_nonoverlap [OF assms]] by blast

text \<open>
  Witness: three calls of \<^verbatim>\<open>record\<close> for \<open>x\<close>. In \<open>abc\<close> the text \<open>bc\<close> is replaced by
  \<open>xc\<close>, which gives the change \<open>[2, 4)\<close> with deleted content \<open>bc\<close>; then \<open>y\<close> is
  inserted at \<open>3\<close>, where \<^verbatim>\<open>recordRange\<close> puts the change into \<^verbatim>\<open>updated\<close> with side
  \<open>1\<close>, the map extends it to \<open>[2, 5)\<close> and the minimizer (\<^verbatim>\<open>findDiffEnd\<close>, line 52)
  trims it to \<open>[2, 4)\<close> with deleted content \<open>b\<close>; then \<open>z\<close> is inserted at \<open>5\<close>. The
  change set \<open>[2, 4)\<close>, \<open>[5, 6)\<close> is reached.
\<close>

theorem same_author_changes_apart_witness:
  "reach_apart text_ops
     [\<lparr>cfrom = 2, cto = 4, deleted = ''b'', author = CHR ''x'', ident = None\<rparr>,
      \<lparr>cfrom = 5, cto = 6, deleted = '''', author = CHR ''x'', ident = None\<rparr>] \<and>
   cto \<lparr>cfrom = 2, cto = 4, deleted = ''b'', author = CHR ''x'', ident = None\<rparr>
     < cfrom \<lparr>cfrom = 5, cto = 6, deleted = '''', author = CHR ''x'', ident = None\<rparr>"
proof -
  let ?c1 = "\<lparr>cfrom = 2, cto = 4, deleted = ''bc'', author = CHR ''x'', ident = None\<rparr>
               :: (string, char) TrackedChange"
  let ?c1' = "\<lparr>cfrom = 2, cto = 4, deleted = ''bc'', author = CHR ''x'', ident = Some 0\<rparr>
               :: (string, char) TrackedChange"
  let ?m1 = "\<lparr>cfrom = 2, cto = 5, deleted = ''bc'', author = CHR ''x'', ident = None\<rparr>
               :: (string, char) TrackedChange"
  let ?c2 = "\<lparr>cfrom = 2, cto = 4, deleted = ''b'', author = CHR ''x'', ident = None\<rparr>
               :: (string, char) TrackedChange"
  let ?c3 = "\<lparr>cfrom = 5, cto = 6, deleted = '''', author = CHR ''x'', ident = None\<rparr>
               :: (string, char) TrackedChange"
  have e1: "ChangeTracking_record text_ops [] (text_edit ''abc'' 2 4 ''xc'') (CHR ''x'')
              = Some [?c1]"
    by code_simp
  have u1: "snd (recordRange text_ops ([] :: (string, char) TrackedChange list) ''abc'' 2 (2 + 2)
              (CHR ''x'') []) = []"
    by code_simp
  have e2: "ChangeTracking_record text_ops [?c1] (text_edit ''axc'' 3 3 ''y'') (CHR ''x'')
              = Some [?c2]"
    by code_simp
  have r2: "recordRange text_ops [?c1] ''axc'' 3 3 (CHR ''x'') [] = ([?c1'], [1])"
    by code_simp
  have t2: "TrackedChange_map text_ops ?c1' (StepMap_map [(3, 0, 1)]) True = Some ?m1"
    by code_simp
  have n2: "minimizeChange text_ops ?m1 ''axyc'' 1 = Some (Some ?c2)"
    by code_simp
  have g2: "step_shrinks text_ops [?c1] ''axc'' 3 0 (StepMap_map [(3, 0, 1)]) (CHR ''x'')
              ''axyc''"
    by (simp add: step_shrinks_def minimize_shrinks_def r2 t2 n2 updated_side_def)
  have e3: "ChangeTracking_record text_ops [?c2] (text_edit ''axyc'' 5 5 ''z'') (CHR ''x'')
              = Some [?c2, ?c3]"
    by code_simp
  have u3: "snd (recordRange text_ops [?c2] ''axyc'' 5 (5 + 0) (CHR ''x'') []) = []"
    by code_simp
  have st: "steps (text_edit d f (f + n) ins) = [(d, new_StepMap [(f, n, int (length ins))])]"
    for d f n ins by (simp add: text_edit_def)
  have st0: "steps (text_edit d f f ins) = [(d, new_StepMap [(f, 0, int (length ins))])]"
    for d f ins by (simp add: text_edit_def)
  have rg: "ranges (new_StepMap [(f, k, n)]) = [(f, k, n)]" for f k n
    by (simp add: new_StepMap_def)
  have rm: "0 \<le> k \<Longrightarrow> replace_map f k (int (length ins))
              (map_pos (new_StepMap [(f, k, int (length ins))]))" for f k ins
    by (simp add: new_StepMap_def replace_map_StepMap)
  have mp: "map_pos (new_StepMap rs) = StepMap_map rs" for rs by (simp add: new_StepMap_def)
  have fd2: "final_doc (text_edit ''axc'' 3 3 ''y'') = ''axyc''" by code_simp
  have "reach_apart text_ops ([] :: (string, char) TrackedChange list)"
    by (rule reach_apart.init)
  from reach_apart.edit [OF this _ st [of _ 2 2] rg rm step_shrinks_none [OF u1]] e1
  have "reach_apart text_ops [?c1]" by simp
  from reach_apart.edit [OF this _ st0 rg rm _ e2] g2
  have "reach_apart text_ops [?c2]" by (simp add: mp fd2)
  from reach_apart.edit [OF this _ st0 rg rm step_shrinks_none [OF u3] e3]
  have r: "reach_apart text_ops [?c2, ?c3]" by simp
  from same_author_changes_apart [OF r] have "cto ([?c2, ?c3] ! 0) < cfrom ([?c2, ?c3] ! 1)"
    by (simp del: One_nat_def)
  with r show ?thesis by simp
qed

text \<open>
  Counterexample to C2 as stated, by three calls of \<^verbatim>\<open>record\<close>: in \<open>abcdef\<close> the author
  \<open>x\<close> deletes \<open>a\<close> and then \<open>d\<close>, which leaves the changes \<open>[1, 1)\<close> and \<open>[3, 3)\<close>. Then
  the author \<open>y\<close> deletes \<open>bc\<close>, the text between them. \<^verbatim>\<open>recordRange\<close> for \<open>y\<close> skips
  the changes of \<open>x\<close>, and \<^verbatim>\<open>mapChanges\<close> maps each of them on its own: both are kept
  and both are now \<open>[1, 1)\<close>.
\<close>

theorem same_author_changes_touch_counterexample:
  "ChangeTracking_record text_ops [] (text_edit ''abcdef'' 1 2 '''') (CHR ''x'')
     = Some [\<lparr>cfrom = 1, cto = 1, deleted = ''a'', author = CHR ''x'', ident = None\<rparr>] \<and>
   ChangeTracking_record text_ops
       [\<lparr>cfrom = 1, cto = 1, deleted = ''a'', author = CHR ''x'', ident = None\<rparr>]
       (text_edit ''bcdef'' 3 4 '''') (CHR ''x'')
     = Some [\<lparr>cfrom = 1, cto = 1, deleted = ''a'', author = CHR ''x'', ident = None\<rparr>,
             \<lparr>cfrom = 3, cto = 3, deleted = ''d'', author = CHR ''x'', ident = None\<rparr>] \<and>
   ChangeTracking_record text_ops
       [\<lparr>cfrom = 1, cto = 1, deleted = ''a'', author = CHR ''x'', ident = None\<rparr>,
        \<lparr>cfrom = 3, cto = 3, deleted = ''d'', author = CHR ''x'', ident = None\<rparr>]
       (text_edit ''bcef'' 1 3 '''') (CHR ''y'')
     = Some [\<lparr>cfrom = 1, cto = 1, deleted = ''a'', author = CHR ''x'', ident = None\<rparr>,
             \<lparr>cfrom = 1, cto = 1, deleted = ''d'', author = CHR ''x'', ident = None\<rparr>,
             \<lparr>cfrom = 1, cto = 1, deleted = ''bc'', author = CHR ''y'', ident = None\<rparr>] \<and>
   \<not> cto \<lparr>cfrom = 1, cto = 1, deleted = ''a'', author = CHR ''x'', ident = None\<rparr>
       < cfrom \<lparr>cfrom = 1, cto = 1, deleted = ''d'', author = CHR ''x'', ident = None\<rparr>"
  by code_simp

section \<open>The order of the change set (C7)\<close>

lemma linked_ordered:
  "sorted_wrt linked xs \<Longrightarrow> \<forall>c\<in>set xs. cfrom c \<le> cto c \<Longrightarrow> sorted_wrt ordered xs"
  by (induction xs) (auto simp: linked_def ordered_def)

lemma chained_author_sorted: "chained cs \<Longrightarrow> author_sorted cs"
  using linked_ordered [of cs] by (simp add: chained_def author_sorted_def)

lemma author_sorted_filter:
  assumes "author_sorted cs"
  shows "sorted (map cfrom (filter (\<lambda>c. author c = a) cs))"
proof -
  from assms have "sorted_wrt ordered (filter (\<lambda>c. author c = a) cs)"
    by (simp add: author_sorted_def sorted_wrt_filter)
  then have "sorted_wrt (\<lambda>c d. cfrom c \<le> cfrom d) (filter (\<lambda>c. author c = a) cs)"
    by (rule sorted_wrt_mono_rel [rotated]) (auto simp: ordered_def)
  then show ?thesis by (simp add: sorted_map)
qed

lemma reach_chained_chained: "reach_chained ops cs \<Longrightarrow> chained cs"
proof (induction rule: reach_chained.induct)
  case init
  show ?case by (simp add: chained_def)
next
  case (rec cs f t doc a u)
  then show ?case by (simp add: recordRange_chained)
next
  case (untracked cs m auth u d cs')
  from untracked_chained [OF untracked.IH untracked.hyps(2,3,4,5)] show ?case .
next
  case (edit cs tr doc sm s old new a cs')
  from edit.hyps(6) record_one_step [OF edit.hyps(2,3), of ops cs a]
  have "mapChanges ops (fst (recordRange ops cs doc s (s + old) a [])) (map_pos sm) (Some a)
       (Some (snd (recordRange ops cs doc s (s + old) a []))) (final_doc tr) = Some cs'"
    by simp
  from edit_chained [OF edit.IH edit.hyps(4,5) this] show ?case .
qed

text \<open>
  Claim C7, as amended. Take the change sets reached from the empty one by calls of
  \<^verbatim>\<open>recordRange\<close> with \<open>from \<le> to\<close>, by calls of \<^verbatim>\<open>mapChanges\<close> for no author or for
  an author without a change in the set, whose position map never lets a position
  mapped to the left pass a later position mapped to the right and whose minimizer
  only shrinks the changes it is given, and by calls of \<^verbatim>\<open>record\<close> for a transform of
  one step with one replaced range, made by any author, where the map is that of the
  replacement and the minimizer only shrinks. In every such change set the changes of
  each author are sorted by \<open>from\<close>; so a change set whose changes all have one author
  is sorted by \<open>from\<close>. Changes of different authors need not be in order.
\<close>

theorem changes_sorted_per_author:
  assumes "reach_chained ops cs"
  shows "(\<forall>a. sorted (map cfrom (filter (\<lambda>c. author c = a) cs))) \<and>
         (\<forall>a. (\<forall>c\<in>set cs. author c = a) \<longrightarrow> sorted (map cfrom cs))"
proof -
  from assms have "chained cs" by (rule reach_chained_chained)
  then have as: "author_sorted cs" by (rule chained_author_sorted)
  have "sorted (map cfrom cs)" if "\<forall>c\<in>set cs. author c = a" for a
  proof -
    from that have "filter (\<lambda>c. author c = a) cs = cs" by (simp add: filter_id_conv)
    with author_sorted_filter [OF as, of a] show ?thesis by simp
  qed
  with author_sorted_filter [OF as] show ?thesis by blast
qed

text \<open>
  Witness: three calls of \<^verbatim>\<open>record\<close> on \<open>abcdefgh\<close>. The author \<open>y\<close> deletes \<open>ef\<close>, the
  author \<open>x\<close> deletes \<open>a\<close>, and \<open>y\<close> deletes \<open>h\<close>. The change set reached is \<open>[4, 4)\<close> of
  \<open>y\<close>, \<open>[1, 1)\<close> of \<open>x\<close>, \<open>[5, 5)\<close> of \<open>y\<close>: it is not sorted by \<open>from\<close>, but the
  changes of \<open>y\<close> are.
\<close>

theorem changes_sorted_per_author_witness:
  "reach_chained text_ops
     [\<lparr>cfrom = 4, cto = 4, deleted = ''ef'', author = CHR ''y'', ident = None\<rparr>,
      \<lparr>cfrom = 1, cto = 1, deleted = ''a'', author = CHR ''x'', ident = None\<rparr>,
      \<lparr>cfrom = 5, cto = 5, deleted = ''h'', author = CHR ''y'', ident = None\<rparr>] \<and>
   sorted (map cfrom (filter (\<lambda>c. author c = CHR ''y'')
     [\<lparr>cfrom = 4, cto = 4, deleted = ''ef'', author = CHR ''y'', ident = None\<rparr>,
      \<lparr>cfrom = 1, cto = 1, deleted = ''a'', author = CHR ''x'', ident = None\<rparr>,
      \<lparr>cfrom = 5, cto = 5, deleted = ''h'', author = CHR ''y'', ident = None\<rparr>]))"
proof -
  let ?y1 = "\<lparr>cfrom = 5, cto = 5, deleted = ''ef'', author = CHR ''y'', ident = None\<rparr>
               :: (string, char) TrackedChange"
  let ?y2 = "\<lparr>cfrom = 4, cto = 4, deleted = ''ef'', author = CHR ''y'', ident = None\<rparr>
               :: (string, char) TrackedChange"
  let ?x1 = "\<lparr>cfrom = 1, cto = 1, deleted = ''a'', author = CHR ''x'', ident = None\<rparr>
               :: (string, char) TrackedChange"
  let ?y3 = "\<lparr>cfrom = 5, cto = 5, deleted = ''h'', author = CHR ''y'', ident = None\<rparr>
               :: (string, char) TrackedChange"
  have e1: "ChangeTracking_record text_ops [] (text_edit ''abcdefgh'' 5 7 '''') (CHR ''y'')
              = Some [?y1]"
    by code_simp
  have u1: "snd (recordRange text_ops ([] :: (string, char) TrackedChange list) ''abcdefgh'' 5
              (5 + 2) (CHR ''y'') []) = []"
    by code_simp
  have e2: "ChangeTracking_record text_ops [?y1] (text_edit ''abcdgh'' 1 2 '''') (CHR ''x'')
              = Some [?y2, ?x1]"
    by code_simp
  have u2: "snd (recordRange text_ops [?y1] ''abcdgh'' 1 (1 + 1) (CHR ''x'') []) = []"
    by code_simp
  have e3: "ChangeTracking_record text_ops [?y2, ?x1] (text_edit ''bcdgh'' 5 6 '''') (CHR ''y'')
              = Some [?y2, ?x1, ?y3]"
    by code_simp
  have u3: "snd (recordRange text_ops [?y2, ?x1] ''bcdgh'' 5 (5 + 1) (CHR ''y'') []) = []"
    by code_simp
  have st: "steps (text_edit d f (f + n) '''') = [(d, new_StepMap [(f, n, 0)])]"
    for d f n by (simp add: text_edit_def)
  have rg: "ranges (new_StepMap [(f, n, 0)]) = [(f, n, 0)]" for f n
    by (simp add: new_StepMap_def)
  have rm: "0 \<le> n \<Longrightarrow> replace_map f n 0 (map_pos (new_StepMap [(f, n, 0)]))" for f n
    by (simp add: new_StepMap_def replace_map_StepMap)
  have "reach_chained text_ops ([] :: (string, char) TrackedChange list)"
    by (rule reach_chained.init)
  from reach_chained.edit [OF this st [of _ 5 2] rg rm step_shrinks_none [OF u1]] e1
  have "reach_chained text_ops [?y1]" by simp
  from reach_chained.edit [OF this st [of _ 1 1] rg rm step_shrinks_none [OF u2]] e2
  have "reach_chained text_ops [?y2, ?x1]" by simp
  from reach_chained.edit [OF this st [of _ 5 1] rg rm step_shrinks_none [OF u3]] e3
  have r: "reach_chained text_ops [?y2, ?x1, ?y3]" by simp
  from changes_sorted_per_author [OF r]
  have "sorted (map cfrom (filter (\<lambda>c. author c = CHR ''y'') [?y2, ?x1, ?y3]))"
    by blast
  with r show ?thesis by simp
qed

text \<open>
  Counterexample to C7 as stated: in \<open>abcdefgh\<close> the author \<open>y\<close> deletes \<open>ef\<close>, then the
  author \<open>x\<close> deletes \<open>a\<close>. \<^verbatim>\<open>recordRange\<close> skips the change of \<open>y\<close> and appends the
  change of \<open>x\<close> after it: the change set is \<open>[4, 4)\<close> of \<open>y\<close> followed by \<open>[1, 1)\<close> of
  \<open>x\<close>.
\<close>

theorem changes_unsorted_counterexample:
  "ChangeTracking_record text_ops [] (text_edit ''abcdefgh'' 5 7 '''') (CHR ''y'')
     = Some [\<lparr>cfrom = 5, cto = 5, deleted = ''ef'', author = CHR ''y'', ident = None\<rparr>] \<and>
   ChangeTracking_record text_ops
       [\<lparr>cfrom = 5, cto = 5, deleted = ''ef'', author = CHR ''y'', ident = None\<rparr>]
       (text_edit ''abcdgh'' 1 2 '''') (CHR ''x'')
     = Some [\<lparr>cfrom = 4, cto = 4, deleted = ''ef'', author = CHR ''y'', ident = None\<rparr>,
             \<lparr>cfrom = 1, cto = 1, deleted = ''a'', author = CHR ''x'', ident = None\<rparr>] \<and>
   \<not> sorted (map cfrom
       [\<lparr>cfrom = 4, cto = 4, deleted = ''ef'', author = CHR ''y'', ident = None\<rparr>,
        \<lparr>cfrom = 1, cto = 1, deleted = ''a'', author = CHR ''x'', ident = None\<rparr>])"
  by code_simp

section \<open>Reverting changes (C1)\<close>

subsection \<open>Reverting the changes of a list\<close>

lemma changedDoc_text:
  "changedDoc text_ops c d = text_replace d (cfrom c) (cto c) (deleted c)"
  by (simp add: changedDoc_def revertTransform_def Transform_replace_def new_Transform_def
      text_ops_def)

lemma revert_all_simps:
  "revert_all ops d [] = d"
  "revert_all ops d (c # cs) = changedDoc ops c (revert_all ops d cs)"
  by (simp_all add: revert_all_def)


lemma within_le: "within lo hi cs \<Longrightarrow> lo \<le> hi"
proof (induction cs arbitrary: lo)
  case Nil
  then show ?case by simp
next
  case (Cons c cs)
  from Cons.prems have "within (cto c) hi cs" "lo \<le> cto c" by simp_all
  with Cons.IH [of "cto c"] show ?case by simp
qed


lemma take_split:
  "1 \<le> lo \<Longrightarrow> lo \<le> p \<Longrightarrow>
   take (nat (lo - 1)) d @ take (nat (p - lo)) (drop (nat (lo - 1)) d) = take (nat (p - 1)) d"
proof -
  assume "1 \<le> lo" "lo \<le> p"
  then have "nat (p - 1) = nat (lo - 1) + nat (p - lo)" by simp
  then show ?thesis by (simp add: take_add)
qed

lemma drop_split:
  "1 \<le> lo \<Longrightarrow> lo \<le> p \<Longrightarrow>
   take (nat (p - lo)) (drop (nat (lo - 1)) d) @ drop (nat (p - 1)) d = drop (nat (lo - 1)) d"
proof -
  assume "1 \<le> lo" "lo \<le> p"
  then have e: "nat (p - lo) + nat (lo - 1) = nat (p - 1)" by simp
  have "drop (nat (p - lo)) (drop (nat (lo - 1)) d) = drop (nat (p - 1)) d"
    by (simp only: drop_drop e)
  with append_take_drop_id [of "nat (p - lo)" "drop (nat (lo - 1)) d"] show ?thesis by simp
qed

lemma length_mid:
  "within lo hi cs \<Longrightarrow> 1 \<le> lo \<Longrightarrow> hi \<le> int (length d) + 1 \<Longrightarrow>
   int (length (mid d cs lo hi)) = hi - lo + shift_sum cs"
proof (induction cs arbitrary: lo)
  case Nil
  then show ?case by simp
next
  case (Cons c cs)
  from Cons.prems have w: "within (cto c) hi cs" and l: "lo \<le> cfrom c" "cfrom c \<le> cto c"
    by simp_all
  from within_le [OF w] Cons.prems(3) have "cto c \<le> int (length d) + 1" by simp
  with l Cons.prems(2) have "int (length (take (nat (cfrom c - lo)) (drop (nat (lo - 1)) d)))
      = cfrom c - lo" by simp
  moreover from Cons.IH [OF w _ Cons.prems(3)] l Cons.prems(2)
  have "int (length (mid d cs (cto c) hi)) = hi - cto c + shift_sum cs" by simp
  ultimately show ?case by simp
qed

lemma revert_all_mid:
  "within lo hi cs \<Longrightarrow> 1 \<le> lo \<Longrightarrow> hi \<le> int (length d) + 1 \<Longrightarrow>
   revert_all text_ops d cs = take (nat (lo - 1)) d @ mid d cs lo hi @ drop (nat (hi - 1)) d"
proof (induction cs arbitrary: lo)
  case Nil
  then show ?case using drop_split [of lo hi d] by (simp add: revert_all_simps)
next
  case (Cons c cs)
  from Cons.prems have w: "within (cto c) hi cs" and l: "lo \<le> cfrom c" "cfrom c \<le> cto c"
    by simp_all
  from within_le [OF w] Cons.prems(3) have hi: "cto c \<le> int (length d) + 1" by simp
  from l Cons.prems(2) have c1: "1 \<le> cto c" by simp
  let ?R = "mid d cs (cto c) hi @ drop (nat (hi - 1)) d"
  from Cons.IH [OF w c1 Cons.prems(3)]
  have E: "revert_all text_ops d cs = take (nat (cto c - 1)) d @ ?R" by simp
  from hi c1 have len: "length (take (nat (cto c - 1)) d) = nat (cto c - 1)" by simp
  from l have le: "nat (cfrom c - 1) \<le> nat (cto c - 1)" by simp
  have t: "take (nat (cfrom c - 1)) (take (nat (cto c - 1)) d @ ?R) = take (nat (cfrom c - 1)) d"
    using le len by (simp add: min_absorb2)
  have dr: "drop (nat (cto c - 1)) (take (nat (cto c - 1)) d @ ?R) = ?R"
    using len by simp
  from t have t': "take (nat (cfrom c - 1)) (revert_all text_ops d cs)
      = take (nat (cfrom c - 1)) d" by (simp only: E)
  from dr have dr': "drop (nat (cto c - 1)) (revert_all text_ops d cs) = ?R" by (simp only: E)
  from take_split [OF Cons.prems(2) l(1), of d]
  have ts: "take (nat (cfrom c - 1)) d
      = take (nat (lo - 1)) d @ take (nat (cfrom c - lo)) (drop (nat (lo - 1)) d)" by simp
  have "revert_all text_ops d (c # cs)
      = take (nat (cfrom c - 1)) (revert_all text_ops d cs) @ deleted c
          @ drop (nat (cto c - 1)) (revert_all text_ops d cs)"
    by (simp only: revert_all_simps changedDoc_text text_replace_def)
  also have "\<dots> = take (nat (cfrom c - 1)) d @ deleted c @ ?R" by (simp only: t' dr')
  also have "\<dots> = take (nat (lo - 1)) d @ mid d (c # cs) lo hi @ drop (nat (hi - 1)) d"
    by (simp only: ts mid.simps append_assoc)
  finally show ?case .
qed



lemma length_revert_all:
  assumes "within lo hi cs" "1 \<le> lo" "hi \<le> int (length d) + 1"
  shows "int (length (revert_all text_ops d cs)) = int (length d) + shift_sum cs"
proof -
  from within_le [OF assms(1)] assms
  have "int (length (take (nat (lo - 1)) d)) = lo - 1"
    and "int (length (drop (nat (hi - 1)) d)) = int (length d) - (hi - 1)" by simp_all
  with revert_all_mid [OF assms] length_mid [OF assms] show ?thesis by simp
qed

subsection \<open>\<^verbatim>\<open>applyAndSlice\<close> on text\<close>









subsection \<open>\<^verbatim>\<open>recordRange\<close> on the changes of one author\<close>







subsection \<open>The map of one replacement\<close>





subsection \<open>Replacements of text\<close>






subsection \<open>Mapping the changes after the replaced range\<close>



subsection \<open>The minimizer on text\<close>







subsection \<open>Mapping the changes of a step\<close>




subsection \<open>Sessions\<close>







end
